theory Spec2Isabelle
  imports Complex_Main "HOL-Library.Log_Nat"
begin

section \<open>JavaScript arithmetic\<close>

text \<open>
  The date utilities work on JavaScript numbers that hold integers. They are modelled as
  \<^typ>\<open>int\<close>: every operation below is exact on integers of magnitude below \<open>2^53\<close>,
  which covers every calendar date of practical interest. The operator \<open>~~\<close> converts to
  a signed 32-bit integer; that wrap-around is written out.
\<close>

definition to_int32 :: "int \<Rightarrow> int" where
  "to_int32 x = (x + 2147483648) mod 4294967296 - 2147483648"

text \<open>The quotient \<open>a / b\<close> with its fraction dropped (rounding towards zero).\<close>

definition trunc_quot :: "int \<Rightarrow> int \<Rightarrow> int" where
  "trunc_quot a b = sgn a * sgn b * (\<bar>a\<bar> div \<bar>b\<bar>)"

text \<open>\<^verbatim>\<open>function div(a, b) { return ~~(a / b); }\<close>\<close>

definition div_js :: "int \<Rightarrow> int \<Rightarrow> int" where
  "div_js a b = to_int32 (trunc_quot a b)"

text \<open>
  The remainder operator \<open>a % b\<close>: the result has the sign of the dividend. The source
  only ever divides by non-zero literals.
\<close>

definition rem_js :: "int \<Rightarrow> int \<Rightarrow> int" where
  "rem_js a b = a - b * trunc_quot a b"

section \<open>Gregorian to Jalali\<close>

definition g_d_m :: "int list" where
  "g_d_m = [0, 31, 59, 90, 120, 151, 181, 212, 243, 273, 304, 334]"

text \<open>
  \<open>g_d_m[gm - 1]\<close> is \<open>undefined\<close> when the index is outside the table; the sum is then
  \<open>NaN\<close> and so are all three components of the result. That outcome is \<open>None\<close>.
\<close>

definition gregorianToJalaliCore :: "int \<Rightarrow> int \<Rightarrow> int \<Rightarrow> (int \<times> int \<times> int) option" where
  "gregorianToJalaliCore gy gm gd =
    (if gm - 1 < 0 \<or> int (length g_d_m) \<le> gm - 1 then None
     else
       let gy2 = (if gm > 2 then gy + 1 else gy);
           days = 355666 + 365 * gy + div_js (gy2 + 3) 4 - div_js (gy2 + 99) 100
                    + div_js (gy2 + 399) 400 + gd + g_d_m ! nat (gm - 1);
           jy = -1595 + 33 * div_js days 12053;
           days = rem_js days 12053;
           jy = jy + 4 * div_js days 1461;
           days = rem_js days 1461;
           (jy, days) = (if days > 365
                         then (jy + div_js (days - 1) 365, rem_js (days - 1) 365)
                         else (jy, days));
           (jm, jd) = (if days < 186
                       then (1 + div_js days 31, 1 + rem_js days 31)
                       else (7 + div_js (days - 186) 30, 1 + rem_js (days - 186) 30))
       in Some (jy, jm, jd))"

section \<open>Jalali to Gregorian\<close>

text \<open>
  The loop \<^verbatim>\<open>for (gm = 0; gm < 13; gm++) { v = sal_a[gm]; if (gd <= v) break; gd -= v; }\<close>
  returns the final \<open>gm\<close> and \<open>gd\<close>.
\<close>

function month_loop :: "int list \<Rightarrow> nat \<Rightarrow> int \<Rightarrow> nat \<times> int" where
  "month_loop sal_a gm gd =
     (if gm < 13
      then (let v = sal_a ! gm in
            if gd \<le> v then (gm, gd) else month_loop sal_a (gm + 1) (gd - v))
      else (gm, gd))"
  by pat_completeness auto
termination
  by (relation "measure (\<lambda>(sal_a, gm, gd). 13 - gm)") auto

definition jalaliToGregorianCore :: "int \<Rightarrow> int \<Rightarrow> int \<Rightarrow> int \<times> int \<times> int" where
  "jalaliToGregorianCore jy0 jm jd =
    (let jy = jy0 + 1595;
         days = -355668 + 365 * jy + div_js jy 33 * 8 + div_js (rem_js jy 33 + 3) 4 + jd
                  + (if jm < 7 then (jm - 1) * 31 else (jm - 7) * 30 + 186);
         gy = 400 * div_js days 146097;
         days = rem_js days 146097;
         (gy, days) = (if days > 36524
                       then (let days = days - 1;
                                 gy = gy + 100 * div_js days 36524;
                                 days = rem_js days 36524;
                                 days = (if days \<ge> 365 then days + 1 else days)
                             in (gy, days))
                       else (gy, days));
         gy = gy + 4 * div_js days 1461;
         days = rem_js days 1461;
         (gy, days) = (if days > 365
                       then (gy + div_js (days - 1) 365, rem_js (days - 1) 365)
                       else (gy, days));
         gd = days + 1;
         sal_a = [0, 31,
                  (if (rem_js gy 4 = 0 \<and> rem_js gy 100 \<noteq> 0) \<or> rem_js gy 400 = 0 then 29 else 28),
                  31, 30, 31, 30, 31, 31, 30, 31, 30, 31];
         (gm, gd) = month_loop sal_a 0 gd
     in (gy, int gm, gd))"

definition gregorianToJalali :: "int \<Rightarrow> int \<Rightarrow> int \<Rightarrow> (int \<times> int \<times> int) option" where
  "gregorianToJalali gy gm gd = gregorianToJalaliCore gy gm gd"

definition jalaliToGregorian :: "int \<Rightarrow> int \<Rightarrow> int \<Rightarrow> int \<times> int \<times> int" where
  "jalaliToGregorian jy jm jd = jalaliToGregorianCore jy jm jd"

section \<open>Month lengths\<close>

text \<open>
  The sum and the product are exact for years of magnitude up to 290000000000000, where
  the product stays below \<open>2^53\<close>. The section on month lengths in double precision has
  the function with both operations rounded, for any year.
\<close>

definition getJalaliDaysInMonth :: "int \<Rightarrow> int \<Rightarrow> int" where
  "getJalaliDaysInMonth jy jm =
    (if jm \<le> 6 then 31
     else if jm \<le> 11 then 30
     else (let isLeap = (rem_js ((jy + 38) * 31) 128 \<le> 30) in if isLeap then 30 else 29))"

section \<open>Gregorian to Hijri\<close>

text \<open>
  \<open>gregorianToHijri\<close> mixes integers with decimal constants and \<open>Math.floor\<close>, and the
  code computes it in double precision. It is modelled twice. This section is the
  function in exact arithmetic: the fractional intermediate values are rationals
  (\<open>365.25\<close> is \<open>36525 / 100\<close>), the integers stay \<^typ>\<open>int\<close>. The section on
  double-precision arithmetic is the function as the code computes it, every operation
  rounded to a double. The two are proved to agree on all years of magnitude up to one
  million; for astronomically large years they differ, and there the double-precision
  model is the code. The function is cut into its three consecutive parts: the Julian
  day number of the Gregorian date, the inversion of that day number (whose results the
  source computes and then does not use), and the Hijri date of the day number.
\<close>

text \<open>The Julian day number of a date, before calibration.\<close>

definition gregorian_jdn :: "int \<Rightarrow> int \<Rightarrow> int \<Rightarrow> int" where
  "gregorian_jdn year month day =
    (let (y, m) = (if month < 3 then (year - 1, month + 12) else (year, month));
         a = \<lfloor>(of_int y :: rat) / 100\<rfloor>;
         b = 2 - a + \<lfloor>(of_int a :: rat) / 4\<rfloor>;
         b = (if y < 1583 then 0 else b);
         b = (if y = 1582
              then (let b = (if m > 10 then -10 else b)
                    in if m = 10 then (if day > 4 then -10 else 0) else b)
              else b)
     in \<lfloor>(365.25 :: rat) * of_int (y + 4716)\<rfloor> + \<lfloor>(30.6001 :: rat) * of_int (m + 1)\<rfloor>
          + day + b - 1524)"

text \<open>The Gregorian date of a Julian day number: the source's \<open>year\<close>, \<open>month\<close>, \<open>day\<close>.\<close>

definition jdn_gregorian :: "int \<Rightarrow> int \<times> int \<times> int" where
  "jdn_gregorian jd =
    (let b = (if jd > 2299160
              then (let a = \<lfloor>((of_int jd :: rat) - 1867216.25) / 36524.25\<rfloor>
                    in 1 + a - \<lfloor>(of_int a :: rat) / 4\<rfloor>)
              else 0);
         bb = jd + b + 1524;
         cc = \<lfloor>((of_int bb :: rat) - 122.1) / 365.25\<rfloor>;
         dd = \<lfloor>(365.25 :: rat) * of_int cc\<rfloor>;
         ee = \<lfloor>(of_int (bb - dd) :: rat) / 30.6001\<rfloor>;
         day = (bb - dd) - \<lfloor>(30.6001 :: rat) * of_int ee\<rfloor>;
         (cc, month) = (if ee > 13 then (cc + 1, ee - 13) else (cc, ee - 1));
         year = cc - 4716
     in (year, month, day))"

text \<open>The Hijri date of a Julian day number.\<close>

definition jdn_hijri :: "int \<Rightarrow> int \<times> int \<times> int" where
  "jdn_hijri jd =
    (let iyear = (10631 :: rat) / 30;
         epochastro = 1948084;
         shift1 = (8.01 :: rat) / 60;
         z = jd - epochastro;
         cyc = \<lfloor>(of_int z :: rat) / 10631\<rfloor>;
         z = z - 10631 * cyc;
         j = \<lfloor>(of_int z - shift1) / iyear\<rfloor>;
         iy = 30 * cyc + j;
         z = z - \<lfloor>of_int j * iyear + shift1\<rfloor>;
         im = \<lfloor>((of_int z :: rat) + 28.5001) / 29.5\<rfloor>;
         im = (if im = 13 then 12 else im);
         im = (if im = 0 then 1 else im);
         id = z - \<lfloor>(29.5 :: rat) * of_int im - 29\<rfloor>
     in (iy, im, id))"

definition CALIBRATION_OFFSET :: int where
  "CALIBRATION_OFFSET = -2"

definition gregorianToHijri :: "int \<Rightarrow> int \<Rightarrow> int \<Rightarrow> int \<times> int \<times> int" where
  "gregorianToHijri gy gm gd =
    (let jd = gregorian_jdn gy gm gd;
         jd = jd + CALIBRATION_OFFSET;
         (year, month, day) = jdn_gregorian jd
     in jdn_hijri jd)"

definition getLunarDate :: "int \<Rightarrow> int \<Rightarrow> int \<Rightarrow> int \<times> int \<times> int" where
  "getLunarDate jy jm jd =
    (let (gy, gm, gd) = jalaliToGregorian jy jm jd in gregorianToHijri gy gm gd)"

section \<open>Double-precision arithmetic\<close>

text \<open>
  JavaScript numbers are IEEE 754 binary64 values, and every arithmetic operation
  returns the double nearest to the exact result, ties going to the even significand.
  \<open>fl x\<close> is that double for the rational \<open>x\<close>; \<open>ilog2 x\<close> is the binary exponent of
  \<open>x\<close> and \<open>rne\<close> rounds to the nearest integer, ties to even. The exponent is
  unbounded: the model follows the code as long as no value reaches \<open>2^1024\<close> (where the
  code gets \<open>Infinity\<close>) or falls into the subnormal range, which no computation below
  comes near.
\<close>

definition ilog2 :: "rat \<Rightarrow> int" where
  "ilog2 x =
     (let (p, q) = quotient_of \<bar>x\<bar>;
          e = bitlen p - bitlen q
      in if of_int p < (2 :: rat) powi e * of_int q then e - 1 else e)"

definition rne :: "rat \<Rightarrow> int" where
  "rne x =
     (let f = \<lfloor>x\<rfloor>; d = x - of_int f
      in if d < 1 / 2 then f else if 1 / 2 < d then f + 1 else if even f then f else f + 1)"

definition fl :: "rat \<Rightarrow> rat" where
  "fl x = (if x = 0 then 0 else let s = 2 powi (ilog2 x - 52) in of_int (rne (x / s)) * s)"

text \<open>The four operations on doubles.\<close>

definition fadd :: "rat \<Rightarrow> rat \<Rightarrow> rat" where "fadd a b = fl (a + b)"
definition fsub :: "rat \<Rightarrow> rat \<Rightarrow> rat" where "fsub a b = fl (a - b)"
definition fmul :: "rat \<Rightarrow> rat \<Rightarrow> rat" where "fmul a b = fl (a * b)"
definition fdiv :: "rat \<Rightarrow> rat \<Rightarrow> rat" where "fdiv a b = fl (a / b)"

text \<open>
  A sum, difference or product of integer-valued doubles is the exact integer rounded to
  a double. The rounded value is again an integer, so such variables stay \<^typ>\<open>int\<close>:
  \<open>dbl n\<close> is the double nearest to the integer \<open>n\<close>. It is \<open>n\<close> itself below \<open>2^53\<close>.
\<close>

definition dbl :: "int \<Rightarrow> int" where
  "dbl n = \<lfloor>fl (of_int n)\<rfloor>"

section \<open>Gregorian to Hijri in double precision\<close>

text \<open>
  \<open>gregorianToHijri\<close> as the code computes it: a decimal literal is the double nearest
  to it, and every \<open>+\<close>, \<open>-\<close>, \<open>*\<close> and \<open>/\<close> is rounded. The arguments are integer-valued
  doubles. The three parts are those of the exact model.
\<close>

definition gregorian_jdn_double :: "int \<Rightarrow> int \<Rightarrow> int \<Rightarrow> int" where
  "gregorian_jdn_double year month day =
    (let (y, m) = (if month < 3 then (dbl (year - 1), dbl (month + 12)) else (year, month));
         a = \<lfloor>fdiv (of_int y) 100\<rfloor>;
         b = dbl (dbl (2 - a) + \<lfloor>fdiv (of_int a) 4\<rfloor>);
         b = (if y < 1583 then 0 else b);
         b = (if y = 1582
              then (let b = (if m > 10 then -10 else b)
                    in if m = 10 then (if day > 4 then -10 else 0) else b)
              else b)
     in dbl (dbl (dbl (dbl (\<lfloor>fmul (fl 365.25) (of_int (dbl (y + 4716)))\<rfloor>
                              + \<lfloor>fmul (fl 30.6001) (of_int (dbl (m + 1)))\<rfloor>)
                         + day)
                    + b)
               - 1524))"

definition jdn_gregorian_double :: "int \<Rightarrow> int \<times> int \<times> int" where
  "jdn_gregorian_double jd =
    (let b = (if jd > 2299160
              then (let a = \<lfloor>fdiv (fsub (of_int jd) (fl 1867216.25)) (fl 36524.25)\<rfloor>
                    in dbl (dbl (1 + a) - \<lfloor>fdiv (of_int a) 4\<rfloor>))
              else 0);
         bb = dbl (dbl (jd + b) + 1524);
         cc = \<lfloor>fdiv (fsub (of_int bb) (fl 122.1)) (fl 365.25)\<rfloor>;
         dd = \<lfloor>fmul (fl 365.25) (of_int cc)\<rfloor>;
         ee = \<lfloor>fdiv (of_int (dbl (bb - dd))) (fl 30.6001)\<rfloor>;
         day = dbl (dbl (bb - dd) - \<lfloor>fmul (fl 30.6001) (of_int ee)\<rfloor>);
         (cc, month) = (if ee > 13 then (dbl (cc + 1), dbl (ee - 13)) else (cc, dbl (ee - 1)));
         year = dbl (cc - 4716)
     in (year, month, day))"

definition jdn_hijri_double :: "int \<Rightarrow> int \<times> int \<times> int" where
  "jdn_hijri_double jd =
    (let iyear = fdiv 10631 30;
         epochastro = 1948084;
         shift1 = fdiv (fl 8.01) 60;
         z = dbl (jd - epochastro);
         cyc = \<lfloor>fdiv (of_int z) 10631\<rfloor>;
         z = dbl (z - dbl (10631 * cyc));
         j = \<lfloor>fdiv (fsub (of_int z) shift1) iyear\<rfloor>;
         iy = dbl (dbl (30 * cyc) + j);
         z = dbl (z - \<lfloor>fadd (fmul (of_int j) iyear) shift1\<rfloor>);
         im = \<lfloor>fdiv (fadd (of_int z) (fl 28.5001)) (fl 29.5)\<rfloor>;
         im = (if im = 13 then 12 else im);
         im = (if im = 0 then 1 else im);
         id = dbl (z - \<lfloor>fsub (fmul (fl 29.5) (of_int im)) 29\<rfloor>)
     in (iy, im, id))"

definition gregorianToHijri_double :: "int \<Rightarrow> int \<Rightarrow> int \<Rightarrow> int \<times> int \<times> int" where
  "gregorianToHijri_double gy gm gd =
    (let jd = gregorian_jdn_double gy gm gd;
         jd = dbl (jd + CALIBRATION_OFFSET);
         (year, month, day) = jdn_gregorian_double jd
     in jdn_hijri_double jd)"

definition getLunarDate_double :: "int \<Rightarrow> int \<Rightarrow> int \<Rightarrow> int \<times> int \<times> int" where
  "getLunarDate_double jy jm jd =
    (let (gy, gm, gd) = jalaliToGregorian jy jm jd in gregorianToHijri_double gy gm gd)"

section \<open>Month lengths in double precision\<close>

text \<open>
  \<open>getJalaliDaysInMonth\<close> with the sum and the product rounded. The remainder \<open>%\<close> of
  two doubles is exact.
\<close>

definition getJalaliDaysInMonth_double :: "int \<Rightarrow> int \<Rightarrow> int" where
  "getJalaliDaysInMonth_double jy jm =
    (if jm \<le> 6 then 31
     else if jm \<le> 11 then 30
     else (let isLeap = (rem_js (dbl (dbl (jy + 38) * 31)) 128 \<le> 30)
           in if isLeap then 30 else 29))"

section \<open>Holidays\<close>










section \<open>Day of the week\<close>

text \<open>
  \<open>new Date(y, m, d).getDay()\<close> belongs to the JavaScript runtime. It is modelled after
  ECMA-262: a year from 0 to 99 means 1900 plus that year, \<open>MakeDay\<close> carries a month
  index outside 0..11 into the year, \<open>DayFromYear\<close> counts the days from 1 January 1970,
  and \<open>WeekDay\<close> is that count plus 4 modulo 7 (0 is Sunday). The date is built and read
  in the same local time zone, so the zone does not enter.
\<close>

definition DayFromYear :: "int \<Rightarrow> int" where
  "DayFromYear y =
     365 * (y - 1970) + (y - 1969) div 4 - (y - 1901) div 100 + (y - 1601) div 400"

definition InLeapYear :: "int \<Rightarrow> bool" where
  "InLeapYear y = ((y mod 4 = 0 \<and> y mod 100 \<noteq> 0) \<or> y mod 400 = 0)"

definition MakeDay :: "int \<Rightarrow> int \<Rightarrow> int \<Rightarrow> int" where
  "MakeDay year month date =
    (let ym = year + month div 12;
         mn = month mod 12;
         leap = (if InLeapYear ym then 1 else 0);
         first = [0, 31, 59 + leap, 90 + leap, 120 + leap, 151 + leap, 181 + leap,
                  212 + leap, 243 + leap, 273 + leap, 304 + leap, 334 + leap] ! nat mn
     in DayFromYear ym + first + date - 1)"

definition Date_getDay :: "int \<Rightarrow> int \<Rightarrow> int \<Rightarrow> int" where
  "Date_getDay year month date =
    (let yr = (if 0 \<le> year \<and> year \<le> 99 then 1900 + year else year)
     in (MakeDay yr month date + 4) mod 7)"

definition getDayOfWeekJalali :: "int \<Rightarrow> int \<Rightarrow> int \<Rightarrow> int" where
  "getDayOfWeekJalali jy jm jd =
    (let (gy, gm, gd) = jalaliToGregorian jy jm jd;
         day = Date_getDay gy (gm - 1) gd
     in [1, 2, 3, 4, 5, 6, 0] ! nat day)"


section \<open>Calendar arithmetic used in the proofs\<close>

text \<open>
  The definitions of this section are not part of the program. They describe the two
  calendars the converters implement, with the floor division of \<^typ>\<open>int\<close>.
\<close>

text \<open>
  The number of days from the start of the converter's year 0 to the start of year \<open>y\<close>,
  for the Jalali calendar (years counted from Jalali -1595, as line 73 does) and for the
  proleptic Gregorian calendar.
\<close>

definition jalali_year_start :: "int \<Rightarrow> int" where
  "jalali_year_start y = 365 * y + (y div 33) * 8 + (y mod 33 + 3) div 4"

definition gregorian_year_start :: "int \<Rightarrow> int" where
  "gregorian_year_start y = 365 * y + (y + 3) div 4 - (y + 99) div 100 + (y + 399) div 400"

text \<open>The year and the day within it (from 0) of a day count, by cycles as the source splits it.\<close>

definition jal_year_doy :: "int \<Rightarrow> int \<times> int" where
  "jal_year_doy D =
    (let q = D div 12053; r = D mod 12053;
         c = r div 1461; r2 = r mod 1461;
         (d, k) = (if r2 > 365 then ((r2 - 1) div 365, (r2 - 1) mod 365) else (0, r2))
     in (33 * q + 4 * c + d, k))"

definition greg_year_doy :: "int \<Rightarrow> int \<times> int" where
  "greg_year_doy E =
    (let a = E div 146097; r0 = E mod 146097;
         b = (if r0 > 36524 then (r0 - 1) div 36524 else 0);
         r2 = (r0 - 1) mod 36524;
         r3 = (if r0 > 36524 then (if r2 \<ge> 365 then r2 + 1 else r2) else r0);
         c = r3 div 1461; r4 = r3 mod 1461;
         d = (if r4 > 365 then (r4 - 1) div 365 else 0);
         k = (if r4 > 365 then (r4 - 1) mod 365 else r4)
     in (400 * a + 100 * b + 4 * c + d, k))"

text \<open>Month and day of a Jalali day of the year, and the days before a Jalali month.\<close>

definition jal_month_day :: "int \<Rightarrow> int \<times> int" where
  "jal_month_day k =
     (if k < 186 then (1 + k div 31, 1 + k mod 31)
      else (7 + (k - 186) div 30, 1 + (k - 186) mod 30))"

definition jal_month_offset :: "int \<Rightarrow> int" where
  "jal_month_offset jm = (if jm < 7 then (jm - 1) * 31 else (jm - 7) * 30 + 186)"

text \<open>The month table \<open>sal_a\<close> of line 90 for a given length of February.\<close>

definition sal_a_of :: "int \<Rightarrow> int list" where
  "sal_a_of feb = [0, 31, feb, 31, 30, 31, 30, 31, 31, 30, 31, 30, 31]"

text \<open>
  Lines 53 to 68 of \<open>gregorianToJalaliCore\<close> and lines 75 to 96 of
  \<open>jalaliToGregorianCore\<close>, each as a function of the day count computed before them.
\<close>

definition jalali_of_days :: "int \<Rightarrow> int \<times> int \<times> int" where
  "jalali_of_days days0 =
     (let jy = -1595 + 33 * div_js days0 12053;
          days = rem_js days0 12053;
          jy = jy + 4 * div_js days 1461;
          days = rem_js days 1461;
          (jy, days) = (if days > 365
                        then (jy + div_js (days - 1) 365, rem_js (days - 1) 365)
                        else (jy, days));
          (jm, jd) = (if days < 186
                      then (1 + div_js days 31, 1 + rem_js days 31)
                      else (7 + div_js (days - 186) 30, 1 + rem_js (days - 186) 30))
      in (jy, jm, jd))"

definition gregorian_of_days :: "int \<Rightarrow> int \<times> int \<times> int" where
  "gregorian_of_days days0 =
    (let gy = 400 * div_js days0 146097;
         days = rem_js days0 146097;
         (gy, days) = (if days > 36524
                       then (let days = days - 1;
                                 gy = gy + 100 * div_js days 36524;
                                 days = rem_js days 36524;
                                 days = (if days \<ge> 365 then days + 1 else days)
                             in (gy, days))
                       else (gy, days));
         gy = gy + 4 * div_js days 1461;
         days = rem_js days 1461;
         (gy, days) = (if days > 365
                       then (gy + div_js (days - 1) 365, rem_js (days - 1) 365)
                       else (gy, days));
         gd = days + 1;
         sal_a = [0, 31,
                  (if (rem_js gy 4 = 0 \<and> rem_js gy 100 \<noteq> 0) \<or> rem_js gy 400 = 0 then 29 else 28),
                  31, 30, 31, 30, 31, 31, 30, 31, 30, 31];
         (gm, gd) = month_loop sal_a 0 gd
     in (gy, int gm, gd))"

text \<open>
  A valid Gregorian date, as the specification words it: a month from 1 to 12 and a day
  within the month, February having 29 days in the years divisible by 4, except the
  centuries not divisible by 400.
\<close>

definition gregorian_leap :: "int \<Rightarrow> bool" where
  "gregorian_leap y = ((y mod 4 = 0 \<and> y mod 100 \<noteq> 0) \<or> y mod 400 = 0)"

definition gregorian_days_in_month :: "int \<Rightarrow> int \<Rightarrow> int" where
  "gregorian_days_in_month gy gm =
     [31, if gregorian_leap gy then 29 else 28, 31, 30, 31, 30, 31, 31, 30, 31, 30, 31]
       ! nat (gm - 1)"

definition valid_gregorian :: "int \<Rightarrow> int \<Rightarrow> int \<Rightarrow> bool" where
  "valid_gregorian gy gm gd \<longleftrightarrow>
     1 \<le> gm \<and> gm \<le> 12 \<and> 1 \<le> gd \<and> gd \<le> gregorian_days_in_month gy gm"

declare month_loop.simps [simp del]

section \<open>Fixed points of the conversions\<close>

text \<open>
  C7. 1 Farvardin 1400 is 21 March 2021: \<open>gregorianToJalali(2021, 3, 21)\<close> returns
  \<open>(1400, 1, 1)\<close> and \<open>jalaliToGregorian(1400, 1, 1)\<close> returns \<open>(2021, 3, 21)\<close>.
\<close>

theorem nowruz_1400:
  "gregorianToJalali 2021 3 21 = Some (1400, 1, 1)
   \<and> jalaliToGregorian 1400 1 1 = (2021, 3, 21)"
  by code_simp

text \<open>
  C9. 1 Farvardin 1403 is Gregorian 2024-03-20, a Wednesday (\<open>getDay()\<close> is 3), and
  \<open>getDayOfWeekJalali(1403, 1, 1)\<close> returns 4, the entry of the table \<open>[1,2,3,4,5,6,0]\<close>
  at index 3.
\<close>

theorem weekday_1403_1_1:
  "jalaliToGregorian 1403 1 1 = (2024, 3, 20)
   \<and> Date_getDay 2024 (3 - 1) 20 = 3
   \<and> [1, 2, 3, 4, 5, 6, 0 :: int] ! 3 = 4
   \<and> getDayOfWeekJalali 1403 1 1 = 4"
  by code_simp

section \<open>The two converters are mutually inverse\<close>

subsection \<open>JavaScript division on non-negative numbers\<close>

lemma div_js_nonneg: "0 \<le> a \<Longrightarrow> 0 < b \<Longrightarrow> a < 2147483648 \<Longrightarrow> div_js a b = a div b"
proof -
  assume a: "0 \<le> a" "0 < b" "a < 2147483648"
  have q: "trunc_quot a b = a div b" using a by (auto simp: trunc_quot_def sgn_if)
  have "0 \<le> a div b" using a by (simp add: pos_imp_zdiv_nonneg_iff)
  moreover have "a div b \<le> a" using a
    by (metis div_pos_pos_trivial int_div_le_self leI nle_le)
  ultimately show ?thesis using a by (simp add: div_js_def q to_int32_def)
qed

lemma rem_js_nonneg: "0 \<le> a \<Longrightarrow> 0 < b \<Longrightarrow> rem_js a b = a mod b"
  by (auto simp: rem_js_def trunc_quot_def sgn_if minus_mult_div_eq_mod)

subsection \<open>Year starts\<close>

lemma div_succ: 
  fixes x n :: int assumes "0 < n"
  shows "(x + 1) div n = x div n + (if (x + 1) mod n = 0 then 1 else 0)"
proof (cases "x mod n = n - 1")
  case True
  have "x = n * (x div n) + x mod n" by simp
  then have "x + 1 = n * (x div n) + n" using True by linarith
  then have e: "x + 1 = n * (x div n + 1) + 0" by (simp add: algebra_simps)
  have "(x + 1) div n = x div n + 1" using int_div_pos_eq[OF e] assms by simp
  moreover have "(x + 1) mod n = 0" using int_mod_pos_eq[OF e] assms by simp
  ultimately show ?thesis by simp
next
  case False
  have r: "0 \<le> x mod n" "x mod n < n" using assms by simp_all
  have e: "x + 1 = n * (x div n) + (x mod n + 1)" by simp
  have "(x + 1) div n = x div n" using int_div_pos_eq[OF e] r False by simp
  moreover have "(x + 1) mod n = x mod n + 1" using int_mod_pos_eq[OF e] r False by simp
  ultimately show ?thesis using r by simp
qed

lemma gregorian_year_start_step: "gregorian_year_start (y + 1) - gregorian_year_start y = (if (y mod 4 = 0 \<and> y mod 100 \<noteq> 0) \<or> y mod 400 = 0 then 366 else 365)"
proof -
  have a: "(y + 1 + 3) div 4 = (y + 3) div 4 + (if y mod 4 = 0 then 1 else 0)"
    using div_succ[of 4 "y + 3"] by (simp add: add.commute add.left_commute)
  have b: "(y + 1 + 99) div 100 = (y + 99) div 100 + (if y mod 100 = 0 then 1 else 0)"
    using div_succ[of 100 "y + 99"] by (simp add: add.commute add.left_commute)
  have c: "(y + 1 + 399) div 400 = (y + 399) div 400 + (if y mod 400 = 0 then 1 else 0)"
    using div_succ[of 400 "y + 399"] by (simp add: add.commute add.left_commute)
  have d1: "y mod 400 = 0 \<Longrightarrow> y mod 100 = 0"
    by auto
  have d2: "y mod 100 = 0 \<Longrightarrow> y mod 4 = 0"
    by auto
  show ?thesis unfolding gregorian_year_start_def a b c using d1 d2 by auto
qed

lemma jalali_year_start_step: "jalali_year_start (y + 1) - jalali_year_start y = (if y mod 33 \<noteq> 32 \<and> y mod 33 mod 4 = 0 then 366 else 365)"
proof (cases "y mod 33 = 32")
  case True
  have "y = 33 * (y div 33) + y mod 33" by simp
  then have "y + 1 = 33 * (y div 33) + 33" using True by linarith
  then have e: "y + 1 = 33 * (y div 33 + 1) + 0" by (simp add: algebra_simps)
  have "(y + 1) div 33 = y div 33 + 1" "(y + 1) mod 33 = 0"
    using int_div_pos_eq[OF e] int_mod_pos_eq[OF e] by simp_all
  then show ?thesis using True by (simp add: jalali_year_start_def)
next
  case False
  have r: "0 \<le> y mod 33" "y mod 33 < 33" by simp_all
  have e: "y + 1 = 33 * (y div 33) + (y mod 33 + 1)" by simp
  have h: "(y + 1) div 33 = y div 33" "(y + 1) mod 33 = y mod 33 + 1"
    using int_div_pos_eq[OF e] int_mod_pos_eq[OF e] r False by simp_all
  have "(y mod 33 + 3 + 1) div 4 = (y mod 33 + 3) div 4 + (if (y mod 33 + 3 + 1) mod 4 = 0 then 1 else 0)"
    by (rule div_succ) simp
  moreover have "(y mod 33 + 3 + 1) mod 4 = y mod 33 mod 4"
  proof -
    have "y mod 33 + 3 + 1 = y mod 33 + 4" by simp
    then show ?thesis by (simp only: mod_add_self2)
  qed
  ultimately have "(y mod 33 + 1 + 3) div 4 = (y mod 33 + 3) div 4 + (if y mod 33 mod 4 = 0 then 1 else 0)"
    by (simp add: add.commute add.left_commute)
  then show ?thesis using False by (simp add: jalali_year_start_def h)
qed

text \<open>
  The cycle decomposition finds the year and the day of the year: the day count is the
  start of the year plus the day, and the day lies within the year.
\<close>

lemma jal_year_doy_correct:
  assumes D: "0 \<le> D" and yk: "jal_year_doy D = (y, k)"
  shows "D = jalali_year_start y + k \<and> 0 \<le> k \<and> k < jalali_year_start (y + 1) - jalali_year_start y \<and> 0 \<le> y"
proof -
  define q where "q = D div 12053"
  define r where "r = D mod 12053"
  define c where "c = r div 1461"
  define r2 where "r2 = r mod 1461"
  define d where "d = (if r2 > 365 then (r2 - 1) div 365 else 0)"
  have k: "k = (if r2 > 365 then (r2 - 1) mod 365 else r2)"
    and y: "y = 33 * q + 4 * c + d"
    using yk by (auto simp: jal_year_doy_def Let_def q_def r_def c_def r2_def d_def split: if_splits)
  have Dq: "D = 12053 * q + r" and r: "0 \<le> r" "r < 12053"
    by (simp_all add: q_def r_def)
  have q0: "0 \<le> q" using D by (simp add: q_def pos_imp_zdiv_nonneg_iff)
  have rc: "r = 1461 * c + r2" and r2: "0 \<le> r2" "r2 < 1461"
    by (simp_all add: c_def r2_def)
  have c: "0 \<le> c" "c \<le> 8" using rc r r2 by linarith+
  have c8: "c = 8 \<Longrightarrow> r2 \<le> 364" using rc r by linarith
  define s where "s = 4 * c + d"
  have dk_eq: "r2 = 365 * d + (if d = 0 then 0 else 1) + k"
    and d_rng: "0 \<le> d" "d \<le> 3" and k0: "0 \<le> k"
    and kpos: "d \<noteq> 0 \<Longrightarrow> k < 365" and kzero: "d = 0 \<Longrightarrow> r2 \<le> 365"
  proof -
    have "r2 = 365 * d + (if d = 0 then 0 else 1) + k \<and> 0 \<le> d \<and> d \<le> 3 \<and> 0 \<le> k
            \<and> (d \<noteq> 0 \<longrightarrow> k < 365) \<and> (d = 0 \<longrightarrow> r2 \<le> 365)"
    proof (cases "r2 > 365")
      case True
      have e: "r2 - 1 = 365 * d + k" and kk: "0 \<le> k" "k < 365"
        using True by (simp_all add: d_def k)
      have "1 \<le> d" "d \<le> 3" using e kk True r2 by linarith+
      then show ?thesis using e kk by auto
    next
      case False
      then show ?thesis using r2 by (simp add: d_def k)
    qed
    then show "r2 = 365 * d + (if d = 0 then 0 else 1) + k" "0 \<le> d" "d \<le> 3" "0 \<le> k"
      "d \<noteq> 0 \<Longrightarrow> k < 365" "d = 0 \<Longrightarrow> r2 \<le> 365" by blast+
  qed
  have dpos: "d \<noteq> 0 \<Longrightarrow> 366 \<le> r2"
    using dk_eq d_rng k0 by (simp split: if_splits)
  have d8: "c = 8 \<Longrightarrow> d = 0" using c8 dpos by fastforce
  have s: "0 \<le> s" "s \<le> 32"
  proof -
    show "0 \<le> s" using c d_rng by (simp add: s_def)
    show "s \<le> 32"
    proof (cases "c = 8")
      case True
      then show ?thesis using d8 by (simp add: s_def)
    next
      case False
      then have "c \<le> 7" using c by linarith
      then show ?thesis using d_rng by (simp add: s_def)
    qed
  qed
  have ys: "y = 33 * q + s" by (simp add: y s_def)
  have ydiv: "y div 33 = q" and ymod: "y mod 33 = s"
    using int_div_pos_eq[OF ys] int_mod_pos_eq[OF ys] s by simp_all
  have s4: "(s + 3) div 4 = c + (if d = 0 then 0 else 1)"
  proof (cases "d = 0")
    case True
    have "s + 3 = 4 * c + 3" by (simp add: s_def True)
    from int_div_pos_eq[OF this] show ?thesis using True by simp
  next
    case False
    have "s + 3 = 4 * (c + 1) + (d - 1)" by (simp add: s_def)
    from int_div_pos_eq[OF this] show ?thesis using False d_rng by simp
  qed
  have smod: "s mod 4 = d"
    using int_mod_pos_eq[of s 4 c d] d_rng by (simp add: s_def)
  have JSy: "jalali_year_start y = 12053 * q + 1461 * c + 365 * d + (if d = 0 then 0 else 1)"
    by (simp add: jalali_year_start_def ydiv ymod s4) (simp add: ys s_def)
  have len: "jalali_year_start (y + 1) - jalali_year_start y = (if s \<noteq> 32 \<and> d = 0 then 366 else 365)"
    by (simp add: jalali_year_start_step ymod smod)
  have "D = jalali_year_start y + k" using JSy Dq rc dk_eq by simp
  moreover have "k < jalali_year_start (y + 1) - jalali_year_start y"
  proof (cases "d = 0")
    case True
    then have kr: "k = r2" using dk_eq by simp
    show ?thesis
    proof (cases "s = 32")
      case True
      then have "c = 8" using \<open>d = 0\<close> by (simp add: s_def)
      then show ?thesis using c8 kr len by simp
    next
      case False
      then show ?thesis using len kzero kr \<open>d = 0\<close> by simp
    qed
  next
    case False
    then show ?thesis using len kpos by simp
  qed
  moreover have "0 \<le> y" using ys q0 s by simp
  ultimately show ?thesis using k0 by simp
qed

lemma gregorian_year_start_digits:
  assumes b: "0 \<le> b" "b \<le> 3" and c: "0 \<le> c" "c \<le> 24" and d: "0 \<le> d" "d \<le> 3"
    and y: "y = 400 * a + 100 * b + 4 * c + d"
  shows "gregorian_year_start y = 146097 * a + 36524 * b + 1461 * c + 365 * d
                 + (if d = 0 then 0 else 1)
                 - (if c = 0 \<and> d = 0 then 0 else 1)
                 + (if b = 0 \<and> c = 0 \<and> d = 0 then 0 else 1)"
    and "y mod 4 = d" and "y mod 100 = 4 * c + d" and "y mod 400 = 100 * b + 4 * c + d"
proof -
  have e4: "y = 4 * (100 * a + 25 * b + c) + d" by (simp add: y)
  show m4: "y mod 4 = d" using int_mod_pos_eq[OF e4] d by simp
  have e100: "y = 100 * (4 * a + b) + (4 * c + d)" by (simp add: y)
  show m100: "y mod 100 = 4 * c + d" using int_mod_pos_eq[OF e100] c d by simp
  have e400: "y = 400 * a + (100 * b + 4 * c + d)" by (simp add: y)
  show m400: "y mod 400 = 100 * b + 4 * c + d" using int_mod_pos_eq[OF e400] b c d by simp
  have d4: "(y + 3) div 4 = 100 * a + 25 * b + c + (if d = 0 then 0 else 1)"
  proof (cases "d = 0")
    case True
    have "y + 3 = 4 * (100 * a + 25 * b + c) + 3" by (simp add: y True)
    from int_div_pos_eq[OF this] show ?thesis using True by simp
  next
    case False
    have "y + 3 = 4 * (100 * a + 25 * b + c + 1) + (d - 1)" by (simp add: y)
    from int_div_pos_eq[OF this] show ?thesis using False d by simp
  qed
  have d100: "(y + 99) div 100 = 4 * a + b + (if c = 0 \<and> d = 0 then 0 else 1)"
  proof (cases "c = 0 \<and> d = 0")
    case True
    have "y + 99 = 100 * (4 * a + b) + 99" using True by (simp add: y)
    from int_div_pos_eq[OF this] show ?thesis using True by simp
  next
    case False
    then have pos: "1 \<le> 4 * c + d" using c d by linarith
    have "y + 99 = 100 * (4 * a + b + 1) + (4 * c + d - 1)" by (simp add: y)
    from int_div_pos_eq[OF this] show ?thesis using False pos c d by simp
  qed
  have d400: "(y + 399) div 400 = a + (if b = 0 \<and> c = 0 \<and> d = 0 then 0 else 1)"
  proof (cases "b = 0 \<and> c = 0 \<and> d = 0")
    case True
    have "y + 399 = 400 * a + 399" using True by (simp add: y)
    from int_div_pos_eq[OF this] show ?thesis using True by simp
  next
    case False
    then have pos: "1 \<le> 100 * b + 4 * c + d" using b c d by linarith
    have "y + 399 = 400 * (a + 1) + (100 * b + 4 * c + d - 1)" by (simp add: y)
    from int_div_pos_eq[OF this] show ?thesis using False pos b c d by simp
  qed
  show "gregorian_year_start y = 146097 * a + 36524 * b + 1461 * c + 365 * d
                 + (if d = 0 then 0 else 1)
                 - (if c = 0 \<and> d = 0 then 0 else 1)
                 + (if b = 0 \<and> c = 0 \<and> d = 0 then 0 else 1)"
    unfolding gregorian_year_start_def d4 d100 d400 by (simp add: y)
qed

lemma year_tail:
  fixes r4 :: int
  assumes r4: "0 \<le> r4" "r4 < 1461"
    and d: "d = (if r4 > 365 then (r4 - 1) div 365 else 0)"
    and k: "k = (if r4 > 365 then (r4 - 1) mod 365 else r4)"
  shows "r4 = 365 * d + (if d = 0 then 0 else 1) + k" "0 \<le> d" "d \<le> 3" "0 \<le> k"
    "d \<noteq> 0 \<Longrightarrow> k < 365" "d = 0 \<Longrightarrow> r4 \<le> 365" "d \<noteq> 0 \<Longrightarrow> 366 \<le> r4"
proof -
  have "r4 = 365 * d + (if d = 0 then 0 else 1) + k \<and> 0 \<le> d \<and> d \<le> 3 \<and> 0 \<le> k
          \<and> (d \<noteq> 0 \<longrightarrow> k < 365) \<and> (d = 0 \<longrightarrow> r4 \<le> 365) \<and> (d \<noteq> 0 \<longrightarrow> 366 \<le> r4)"
  proof (cases "r4 > 365")
    case True
    have e: "r4 - 1 = 365 * d + k" and kk: "0 \<le> k" "k < 365"
      using True by (simp_all add: d k)
    have "1 \<le> d" "d \<le> 3" using e kk True r4 by linarith+
    then show ?thesis using e kk True by auto
  next
    case False
    then show ?thesis using r4 by (simp add: d k)
  qed
  then show "r4 = 365 * d + (if d = 0 then 0 else 1) + k" "0 \<le> d" "d \<le> 3" "0 \<le> k"
    "d \<noteq> 0 \<Longrightarrow> k < 365" "d = 0 \<Longrightarrow> r4 \<le> 365" "d \<noteq> 0 \<Longrightarrow> 366 \<le> r4" by blast+
qed

lemma greg_year_doy_correct:
  assumes E: "0 \<le> E" and yk: "greg_year_doy E = (y, k)"
  shows "E = gregorian_year_start y + k \<and> 0 \<le> k \<and> k < gregorian_year_start (y + 1) - gregorian_year_start y \<and> 0 \<le> y"
proof -
  define a where "a = E div 146097"
  define r0 where "r0 = E mod 146097"
  define b where "b = (if r0 > 36524 then (r0 - 1) div 36524 else 0)"
  define r2 where "r2 = (r0 - 1) mod 36524"
  define r3 where "r3 = (if r0 > 36524 then (if r2 \<ge> 365 then r2 + 1 else r2) else r0)"
  define c where "c = r3 div 1461"
  define r4 where "r4 = r3 mod 1461"
  define d where "d = (if r4 > 365 then (r4 - 1) div 365 else 0)"
  have k: "k = (if r4 > 365 then (r4 - 1) mod 365 else r4)"
    and y: "y = 400 * a + 100 * b + 4 * c + d"
    using yk
    unfolding greg_year_doy_def Let_def a_def r0_def b_def r2_def r3_def c_def r4_def d_def
    by simp_all
  have Ea: "E = 146097 * a + r0" and r0: "0 \<le> r0" "r0 < 146097"
    by (simp_all add: a_def r0_def)
  have a0: "0 \<le> a" using E by (simp add: a_def pos_imp_zdiv_nonneg_iff)
  have cent: "r0 = 36524 * b + r3 + (if b = 0 then 0 else if 366 \<le> r3 then 0 else 1)
              \<and> 0 \<le> b \<and> b \<le> 3 \<and> 0 \<le> r3 \<and> r3 \<le> 36524 \<and> (b \<noteq> 0 \<longrightarrow> r3 \<noteq> 365)"
  proof (cases "r0 > 36524")
    case True
    have e: "r0 - 1 = 36524 * b + r2" and rr: "0 \<le> r2" "r2 < 36524"
      using True by (simp_all add: b_def r2_def)
    have bb: "1 \<le> b" "b \<le> 3" using e rr True r0 by linarith+
    show ?thesis
    proof (cases "r2 \<ge> 365")
      case True
      then have "r3 = r2 + 1" using \<open>r0 > 36524\<close> by (simp add: r3_def)
      then show ?thesis using e rr bb True by simp
    next
      case False
      then have "r3 = r2" using \<open>r0 > 36524\<close> by (simp add: r3_def)
      then show ?thesis using e rr bb False by simp
    qed
  next
    case False
    then show ?thesis using r0 by (simp add: b_def r3_def)
  qed
  then have cent_eq: "r0 = 36524 * b + r3 + (if b = 0 then 0 else if 366 \<le> r3 then 0 else 1)"
    and b: "0 \<le> b" "b \<le> 3" and r3: "0 \<le> r3" "r3 \<le> 36524"
    and r3ne: "b \<noteq> 0 \<Longrightarrow> r3 \<noteq> 365"
    by blast+
  have r3c: "r3 = 1461 * c + r4" and r4: "0 \<le> r4" "r4 < 1461"
    by (simp_all add: c_def r4_def)
  have c: "0 \<le> c" "c \<le> 24" using r3c r3 r4 by linarith+
  note t = year_tail[OF r4 d_def k]
  note g = gregorian_year_start_digits[OF b c t(2,3) y]
  have big: "366 \<le> r3 \<longleftrightarrow> \<not> (c = 0 \<and> d = 0)"
  proof (cases "c = 0")
    case True
    then have "r3 = r4" using r3c by simp
    then show ?thesis using True t(6,7) by (cases "d = 0") auto
  next
    case False
    then have "1 \<le> c" using c by linarith
    then have "366 \<le> r3" using r3c r4 by linarith
    then show ?thesis using False by simp
  qed
  have corr: "(if b = 0 then 0 else if 366 \<le> r3 then 0 else (1::int))
                = (if b = 0 \<and> c = 0 \<and> d = 0 then 0 else 1) - (if c = 0 \<and> d = 0 then 0 else 1)"
    using big by auto
  have "E = gregorian_year_start y + k"
    using Ea cent_eq r3c t(1) g(1) corr by linarith
  moreover have "k < gregorian_year_start (y + 1) - gregorian_year_start y"
  proof (cases "d = 0")
    case False
    then show ?thesis using t(5) by (simp add: gregorian_year_start_step)
  next
    case True
    then have kr: "k = r4" "r4 \<le> 365" using t(1,6) by simp_all
    show ?thesis
    proof (cases "c = 0 \<and> b \<noteq> 0")
      case True
      then have "r3 = r4" using r3c by simp
      then have "k \<noteq> 365" using r3ne True kr by simp
      then show ?thesis using kr by (simp add: gregorian_year_start_step)
    next
      case False
      then have "(y mod 4 = 0 \<and> y mod 100 \<noteq> 0) \<or> y mod 400 = 0"
        using g(2,3,4) \<open>d = 0\<close> b c by auto
      then show ?thesis using kr by (simp add: gregorian_year_start_step)
    qed
  qed
  moreover have "0 \<le> y" using y a0 b c t(2) by simp
  ultimately show ?thesis using t(4) by simp
qed

subsection \<open>Months\<close>

lemma int_1_12:
  fixes m :: int assumes "1 \<le> m" "m \<le> 12"
  shows "m = 1 \<or> m = 2 \<or> m = 3 \<or> m = 4 \<or> m = 5 \<or> m = 6 \<or> m = 7 \<or> m = 8 \<or> m = 9
         \<or> m = 10 \<or> m = 11 \<or> m = 12"
  using assms by presburger

lemma month_loop_fwd:
  assumes m: "1 \<le> gm" "gm \<le> 12" and d: "1 \<le> gd" "gd \<le> sal_a_of feb ! nat gm"
    and feb: "feb = 28 \<or> feb = 29"
  shows "month_loop (sal_a_of feb) 0 (g_d_m ! nat (gm - 1) + (if gm > 2 then feb - 28 else 0) + gd)
           = (nat gm, gd)"
  using int_1_12[OF m] d feb
  by (elim disjE) (simp_all add: sal_a_of_def g_d_m_def month_loop.simps)

lemma month_of_doy:
  assumes feb: "feb = 28 \<or> feb = 29" and n: "1 \<le> n" "n \<le> 337 + feb"
  shows "\<exists>gm gd. 1 \<le> gm \<and> gm \<le> 12 \<and> 1 \<le> gd \<and> gd \<le> sal_a_of feb ! nat gm
           \<and> n = g_d_m ! nat (gm - 1) + (if gm > 2 then feb - 28 else 0) + gd"
proof -
  let ?L = "feb - 28"
  let ?P = "\<lambda>gm gd. 1 \<le> gm \<and> gm \<le> 12 \<and> 1 \<le> gd \<and> gd \<le> sal_a_of feb ! nat gm
           \<and> n = g_d_m ! nat (gm - 1) + (if gm > 2 then feb - 28 else 0) + gd"
  consider "n \<le> 31" | "31 < n \<and> n \<le> 31 + feb" | "59 + ?L < n \<and> n \<le> 90 + ?L"
    | "90 + ?L < n \<and> n \<le> 120 + ?L" | "120 + ?L < n \<and> n \<le> 151 + ?L"
    | "151 + ?L < n \<and> n \<le> 181 + ?L" | "181 + ?L < n \<and> n \<le> 212 + ?L"
    | "212 + ?L < n \<and> n \<le> 243 + ?L" | "243 + ?L < n \<and> n \<le> 273 + ?L"
    | "273 + ?L < n \<and> n \<le> 304 + ?L" | "304 + ?L < n \<and> n \<le> 334 + ?L"
    | "334 + ?L < n"
    by linarith
  then show ?thesis
  proof cases
    case 1 then have "?P 1 n" using n by (simp add: sal_a_of_def g_d_m_def)
    then show ?thesis by blast
  next
    case 2 then have "?P 2 (n - 31)" using n by (simp add: sal_a_of_def g_d_m_def)
    then show ?thesis by blast
  next
    case 3 then have "?P 3 (n - 59 - ?L)" using n by (simp add: sal_a_of_def g_d_m_def)
    then show ?thesis by blast
  next
    case 4 then have "?P 4 (n - 90 - ?L)" using n by (simp add: sal_a_of_def g_d_m_def)
    then show ?thesis by blast
  next
    case 5 then have "?P 5 (n - 120 - ?L)" using n by (simp add: sal_a_of_def g_d_m_def)
    then show ?thesis by blast
  next
    case 6 then have "?P 6 (n - 151 - ?L)" using n by (simp add: sal_a_of_def g_d_m_def)
    then show ?thesis by blast
  next
    case 7 then have "?P 7 (n - 181 - ?L)" using n by (simp add: sal_a_of_def g_d_m_def)
    then show ?thesis by blast
  next
    case 8 then have "?P 8 (n - 212 - ?L)" using n by (simp add: sal_a_of_def g_d_m_def)
    then show ?thesis by blast
  next
    case 9 then have "?P 9 (n - 243 - ?L)" using n by (simp add: sal_a_of_def g_d_m_def)
    then show ?thesis by blast
  next
    case 10 then have "?P 10 (n - 273 - ?L)" using n by (simp add: sal_a_of_def g_d_m_def)
    then show ?thesis by blast
  next
    case 11 then have "?P 11 (n - 304 - ?L)" using n by (simp add: sal_a_of_def g_d_m_def)
    then show ?thesis by blast
  next
    case 12 then have "?P 12 (n - 334 - ?L)" using n by (simp add: sal_a_of_def g_d_m_def)
    then show ?thesis by blast
  qed
qed

lemma month_loop_bwd:
  assumes feb: "feb = 28 \<or> feb = 29" and n: "1 \<le> n" "n \<le> 337 + feb"
    and r: "month_loop (sal_a_of feb) 0 n = (m, gd)"
  shows "1 \<le> int m \<and> int m \<le> 12 \<and> 1 \<le> gd \<and> gd \<le> sal_a_of feb ! m
         \<and> n = g_d_m ! (m - 1) + (if int m > 2 then feb - 28 else 0) + gd"
proof -
  obtain gm' gd' where p: "1 \<le> gm'" "gm' \<le> 12" "1 \<le> gd'" "gd' \<le> sal_a_of feb ! nat gm'"
     "n = g_d_m ! nat (gm' - 1) + (if gm' > 2 then feb - 28 else 0) + gd'"
    using month_of_doy[OF feb n] by blast
  have "month_loop (sal_a_of feb) 0 n = (nat gm', gd')"
    unfolding p(5) by (rule month_loop_fwd[OF p(1,2,3,4) feb])
  then have e: "m = nat gm'" "gd = gd'" using r by simp_all
  have "nat (gm' - 1) = nat gm' - 1" using p(1) by simp
  then show ?thesis using p e by simp
qed

lemma jal_month_bwd:
  assumes k: "0 \<le> k" "k \<le> 365" and r: "jal_month_day k = (jm, jd)"
  shows "1 \<le> jm \<and> jm \<le> 12 \<and> 1 \<le> jd \<and> jd \<le> (if jm \<le> 6 then 31 else 30)
         \<and> jal_month_offset jm + jd - 1 = k"
proof (cases "k < 186")
  case True
  then have jm: "jm = 1 + k div 31" and jd: "jd = 1 + k mod 31"
    using r by (simp_all add: jal_month_day_def)
  have e: "k = 31 * (k div 31) + k mod 31" by simp
  have b: "0 \<le> k mod 31" "k mod 31 < 31" by simp_all
  have "0 \<le> k div 31" "k div 31 \<le> 5" using e b True k by linarith+
  then show ?thesis using e b by (simp add: jm jd jal_month_offset_def)
next
  case False
  then have jm: "jm = 7 + (k - 186) div 30" and jd: "jd = 1 + (k - 186) mod 30"
    using r by (simp_all add: jal_month_day_def)
  have e: "k - 186 = 30 * ((k - 186) div 30) + (k - 186) mod 30" by simp
  have b: "0 \<le> (k - 186) mod 30" "(k - 186) mod 30 < 30" by simp_all
  have "0 \<le> (k - 186) div 30" "(k - 186) div 30 \<le> 5" using e b False k by linarith+
  then show ?thesis using e b by (simp add: jm jd jal_month_offset_def)
qed

lemma jal_month_fwd:
  assumes m: "1 \<le> jm" "jm \<le> 12" and d: "1 \<le> jd" "jd \<le> (if jm \<le> 6 then 31 else 30)"
  shows "jal_month_day (jal_month_offset jm + jd - 1) = (jm, jd)"
proof (cases "jm < 7")
  case True
  have e: "jal_month_offset jm + jd - 1 = 31 * (jm - 1) + (jd - 1)"
    using True by (simp add: jal_month_offset_def)
  have lt: "31 * (jm - 1) + (jd - 1) < 186" using True d by simp
  have "(31 * (jm - 1) + (jd - 1)) div 31 = jm - 1" "(31 * (jm - 1) + (jd - 1)) mod 31 = jd - 1"
    using int_div_pos_eq[OF refl, of "jd - 1" 31 "jm - 1"] int_mod_pos_eq[OF refl, of "jd - 1" 31 "jm - 1"] d True
    by simp_all
  then show ?thesis unfolding e using lt by (simp add: jal_month_day_def)
next
  case False
  have e: "jal_month_offset jm + jd - 1 = 186 + (30 * (jm - 7) + (jd - 1))"
    using False by (simp add: jal_month_offset_def)
  have "(30 * (jm - 7) + (jd - 1)) div 30 = jm - 7" "(30 * (jm - 7) + (jd - 1)) mod 30 = jd - 1"
    using int_div_pos_eq[OF refl, of "jd - 1" 30 "jm - 7"] int_mod_pos_eq[OF refl, of "jd - 1" 30 "jm - 7"] d False
    by simp_all
  then show ?thesis unfolding e using False d by (simp add: jal_month_day_def)
qed

subsection \<open>The source functions in terms of the calendar arithmetic\<close>

lemma g2j_stage:
  "gregorianToJalaliCore gy gm gd =
     (if gm < 1 \<or> 12 < gm then None
      else Some (jalali_of_days (355666 + 365 * gy
              + div_js ((if gm > 2 then gy + 1 else gy) + 3) 4
              - div_js ((if gm > 2 then gy + 1 else gy) + 99) 100
              + div_js ((if gm > 2 then gy + 1 else gy) + 399) 400 + gd + g_d_m ! nat (gm - 1))))"
  unfolding gregorianToJalaliCore_def jalali_of_days_def Let_def
  by (simp add: g_d_m_def)

lemma j2g_stage:
  "jalaliToGregorianCore jy jm jd =
     gregorian_of_days (-355668 + 365 * (jy + 1595) + div_js (jy + 1595) 33 * 8
        + div_js (rem_js (jy + 1595) 33 + 3) 4 + jd
        + (if jm < 7 then (jm - 1) * 31 else (jm - 7) * 30 + 186))"
  unfolding jalaliToGregorianCore_def gregorian_of_days_def Let_def
  by (rule refl)

lemma div_js_mod:
  "0 < n \<Longrightarrow> n \<le> 2147483648 \<Longrightarrow> 0 < b \<Longrightarrow> div_js (x mod n) b = x mod n div b"
proof -
  assume a: "0 < n" "n \<le> 2147483648" "0 < b"
  have "0 \<le> x mod n" "x mod n < n" using a by simp_all
  then show ?thesis using a by (intro div_js_nonneg) linarith+
qed

lemma rem_js_mod: "0 < n \<Longrightarrow> 0 < b \<Longrightarrow> rem_js (x mod n) b = x mod n mod b"
  by (rule rem_js_nonneg) simp_all

lemma jalali_of_days_math:
  assumes D: "0 \<le> D" "D < 2147483648"
  shows "jalali_of_days D =
           (case jal_year_doy D of (y, k) \<Rightarrow>
              case jal_month_day k of (jm, jd) \<Rightarrow> (y - 1595, jm, jd))"
proof -
  define r2 where "r2 = D mod 12053 mod 1461"
  define k where "k = (if r2 > 365 then (r2 - 1) mod 365 else r2)"
  have r2: "0 \<le> r2" "r2 < 1461" by (simp_all add: r2_def)
  have k: "0 \<le> k" "k < 1461" using r2 by (auto simp: k_def intro: order_less_trans[of _ 365])
  have f1: "div_js D 12053 = D div 12053" "rem_js D 12053 = D mod 12053"
    using D by (simp_all add: div_js_nonneg rem_js_nonneg)
  have f2: "div_js (D mod 12053) 1461 = D mod 12053 div 1461"
     "rem_js (D mod 12053) 1461 = r2"
    by (simp_all add: div_js_mod rem_js_mod r2_def)
  have f3: "r2 > 365 \<Longrightarrow> div_js (r2 - 1) 365 = (r2 - 1) div 365"
     "r2 > 365 \<Longrightarrow> rem_js (r2 - 1) 365 = (r2 - 1) mod 365"
    using r2 by (simp_all add: div_js_nonneg rem_js_nonneg)
  have f4: "div_js k 31 = k div 31" "rem_js k 31 = k mod 31"
    using k by (simp_all add: div_js_nonneg rem_js_nonneg)
  have f5: "\<not> k < 186 \<Longrightarrow> div_js (k - 186) 30 = (k - 186) div 30"
     "\<not> k < 186 \<Longrightarrow> rem_js (k - 186) 30 = (k - 186) mod 30"
    using k by (simp_all add: div_js_nonneg rem_js_nonneg)
  have lhs: "jalali_of_days D =
      (-1595 + 33 * (D div 12053) + 4 * (D mod 12053 div 1461)
         + (if r2 > 365 then (r2 - 1) div 365 else 0),
       if k < 186 then 1 + k div 31 else 7 + (k - 186) div 30,
       if k < 186 then 1 + k mod 31 else 1 + (k - 186) mod 30)"
  proof (cases "r2 > 365")
    case True
    show ?thesis
      unfolding jalali_of_days_def Let_def f1 f2 using True f3 f4 f5
      by (simp add: k_def)
  next
    case False
    show ?thesis
      unfolding jalali_of_days_def Let_def f1 f2 using False f4 f5
      by (simp add: k_def)
  qed
  have rhs: "jal_year_doy D = (33 * (D div 12053) + 4 * (D mod 12053 div 1461)
         + (if r2 > 365 then (r2 - 1) div 365 else 0), k)"
    unfolding jal_year_doy_def Let_def r2_def[symmetric] k_def by simp
  show ?thesis unfolding lhs rhs by (simp add: jal_month_day_def)
qed

lemma gregorian_of_days_math:
  assumes E: "0 \<le> E" "E < 2147483648"
  shows "gregorian_of_days E =
           (case greg_year_doy E of (y, k) \<Rightarrow>
              case month_loop (sal_a_of (if gregorian_leap y then 29 else 28)) 0 (k + 1) of
                (gm, gd) \<Rightarrow> (y, int gm, gd))"
proof -
  define r0 where "r0 = E mod 146097"
  define b where "b = (if r0 > 36524 then (r0 - 1) div 36524 else 0)"
  define r2 where "r2 = (r0 - 1) mod 36524"
  define r3 where "r3 = (if r0 > 36524 then (if r2 \<ge> 365 then r2 + 1 else r2) else r0)"
  define r4 where "r4 = r3 mod 1461"
  define d where "d = (if r4 > 365 then (r4 - 1) div 365 else 0)"
  define k where "k = (if r4 > 365 then (r4 - 1) mod 365 else r4)"
  define y where "y = 400 * (E div 146097) + 100 * b + 4 * (r3 div 1461) + d"
  have gyd: "greg_year_doy E = (y, k)"
    unfolding greg_year_doy_def Let_def y_def k_def d_def r4_def r3_def r2_def b_def r0_def
    by simp
  have y0: "0 \<le> y" using greg_year_doy_correct[OF E(1) gyd] by simp
  have r0: "0 \<le> r0" "r0 < 146097" by (simp_all add: r0_def)
  have r2: "0 \<le> r2" "r2 < 36524" by (simp_all add: r2_def)
  have r3: "0 \<le> r3" "r3 < 2147483648" using r0 r2 by (auto simp: r3_def)
  have r4: "0 \<le> r4" "r4 < 1461" by (simp_all add: r4_def)
  have f1: "div_js E 146097 = E div 146097" "rem_js E 146097 = r0"
    using E by (simp_all add: div_js_nonneg rem_js_nonneg r0_def)
  have f2: "r0 > 36524 \<Longrightarrow> div_js (r0 - 1) 36524 = (r0 - 1) div 36524"
     "r0 > 36524 \<Longrightarrow> rem_js (r0 - 1) 36524 = r2"
    using r0 by (simp_all add: div_js_nonneg rem_js_nonneg r2_def)
  have f3: "div_js r3 1461 = r3 div 1461" "rem_js r3 1461 = r4"
    using r3 by (simp_all add: div_js_nonneg rem_js_nonneg r4_def)
  have f4: "r4 > 365 \<Longrightarrow> div_js (r4 - 1) 365 = (r4 - 1) div 365"
     "r4 > 365 \<Longrightarrow> rem_js (r4 - 1) 365 = (r4 - 1) mod 365"
    using r4 by (simp_all add: div_js_nonneg rem_js_nonneg)
  have f5: "rem_js y 4 = y mod 4" "rem_js y 100 = y mod 100" "rem_js y 400 = y mod 400"
    using y0 by (simp_all add: rem_js_nonneg)
  have lhs: "gregorian_of_days E =
      (case month_loop (sal_a_of (if gregorian_leap y then 29 else 28)) 0 (k + 1) of
         (gm, gd) \<Rightarrow> (y, int gm, gd))"
  proof (cases "r0 > 36524")
    case c1: True
    have s1: "(if r2 \<ge> 365 then r2 + 1 else r2) = r3" using c1 by (simp add: r3_def)
    show ?thesis
    proof (cases "r4 > 365")
      case True
      have yy: "400 * (E div 146097) + 100 * ((r0 - 1) div 36524) + 4 * (r3 div 1461) + (r4 - 1) div 365 = y"
        using c1 True by (simp add: y_def b_def d_def)
      show ?thesis
        using c1 True
        by (simp add: gregorian_of_days_def f1 f2 s1 f3 f4 yy f5 k_def sal_a_of_def gregorian_leap_def)
    next
      case False
      have yy: "400 * (E div 146097) + 100 * ((r0 - 1) div 36524) + 4 * (r3 div 1461) = y"
        using c1 False by (simp add: y_def b_def d_def)
      show ?thesis
        using c1 False
        by (simp add: gregorian_of_days_def f1 f2 s1 f3 f4 yy f5 k_def sal_a_of_def gregorian_leap_def)
    qed
  next
    case c1: False
    have s1: "r0 = r3" using c1 by (simp add: r3_def)
    show ?thesis
    proof (cases "r4 > 365")
      case True
      have yy: "400 * (E div 146097) + 4 * (r3 div 1461) + (r4 - 1) div 365 = y"
        using c1 True by (simp add: y_def b_def d_def)
      show ?thesis
        using c1 True
        by (simp add: gregorian_of_days_def f1 s1 f3 f4 yy f5 k_def sal_a_of_def gregorian_leap_def)
    next
      case False
      have yy: "400 * (E div 146097) + 4 * (r3 div 1461) = y"
        using c1 False by (simp add: y_def b_def d_def)
      show ?thesis
        using c1 False
        by (simp add: gregorian_of_days_def f1 s1 f3 f4 yy f5 k_def sal_a_of_def gregorian_leap_def)
    qed
  qed
  show ?thesis unfolding lhs gyd by simp
qed

subsection \<open>A day count determines its year\<close>

lemma start_mono:
  fixes F :: "int \<Rightarrow> int"
  assumes step: "\<And>y. F y \<le> F (y + 1)" and le: "y \<le> y'"
  shows "F y \<le> F y'"
  using le
proof (induction y' rule: int_ge_induct)
  case base
  show ?case by simp
next
  case (step i)
  then show ?case using assms(1)[of i] by linarith
qed

lemma year_unique:
  fixes F :: "int \<Rightarrow> int"
  assumes step: "\<And>y. F y \<le> F (y + 1)"
    and eq: "F y + k = F y' + k'"
    and k: "0 \<le> k" "k < F (y + 1) - F y"
    and k': "0 \<le> k'" "k' < F (y' + 1) - F y'"
  shows "y = y' \<and> k = k'"
proof -
  have "\<not> y < y'"
  proof
    assume "y < y'"
    then have "F (y + 1) \<le> F y'" using start_mono[where F = F, OF step, of "y + 1" y'] by simp
    then show False using eq k k' by linarith
  qed
  moreover have "\<not> y' < y"
  proof
    assume "y' < y"
    then have "F (y' + 1) \<le> F y" using start_mono[where F = F, OF step, of "y' + 1" y] by simp
    then show False using eq k k' by linarith
  qed
  ultimately have "y = y'" by linarith
  then show ?thesis using eq by simp
qed

lemma jalali_year_start_le_step: "jalali_year_start y \<le> jalali_year_start (y + 1)"
  using jalali_year_start_step[of y] by (simp split: if_splits)

lemma gregorian_year_start_le_step: "gregorian_year_start y \<le> gregorian_year_start (y + 1)"
  using gregorian_year_start_step[of y] by (simp split: if_splits)

lemma gregorian_year_start_step_leap: "gregorian_year_start (y + 1) - gregorian_year_start y = (if gregorian_leap y then 366 else 365)"
  by (simp add: gregorian_year_start_step gregorian_leap_def)

lemma jalali_year_start_bounds:
  assumes "0 \<le> y"
  shows "365 * y \<le> jalali_year_start y" and "jalali_year_start y \<le> 366 * y + 8"
proof -
  have a: "y = 33 * (y div 33) + y mod 33" by simp
  have b: "0 \<le> y mod 33" "y mod 33 < 33" by simp_all
  have c: "0 \<le> y div 33" using assms by (simp add: pos_imp_zdiv_nonneg_iff)
  have d: "y mod 33 + 3 = 4 * ((y mod 33 + 3) div 4) + (y mod 33 + 3) mod 4" by simp
  have e: "0 \<le> (y mod 33 + 3) mod 4" "(y mod 33 + 3) mod 4 < 4" by simp_all
  show "365 * y \<le> jalali_year_start y" unfolding jalali_year_start_def using a b c d e by linarith
  show "jalali_year_start y \<le> 366 * y + 8" unfolding jalali_year_start_def using a b c d e by linarith
qed

lemma gregorian_year_start_bounds:
  assumes "0 \<le> y"
  shows "365 * y - 1 \<le> gregorian_year_start y" and "gregorian_year_start y \<le> 366 * y + 2"
proof -
  have a: "y + 3 = 4 * ((y + 3) div 4) + (y + 3) mod 4" by simp
  have a': "0 \<le> (y + 3) mod 4" "(y + 3) mod 4 < 4" by simp_all
  have b: "y + 99 = 100 * ((y + 99) div 100) + (y + 99) mod 100" by simp
  have b': "0 \<le> (y + 99) mod 100" "(y + 99) mod 100 < 100" by simp_all
  have c: "y + 399 = 400 * ((y + 399) div 400) + (y + 399) mod 400" by simp
  have c': "0 \<le> (y + 399) mod 400" "(y + 399) mod 400 < 400" by simp_all
  show "365 * y - 1 \<le> gregorian_year_start y" unfolding gregorian_year_start_def using assms a a' b b' c c' by linarith
  show "gregorian_year_start y \<le> 366 * y + 2" unfolding gregorian_year_start_def using assms a a' b b' c c' by linarith
qed

text \<open>The day count of line 52 in terms of the year start.\<close>

lemma g2j_days:
  assumes gy: "0 \<le> gy" "gy < 2147483000"
  shows "365 * gy
              + div_js ((if (gm::int) > 2 then gy + 1 else gy) + 3) 4
              - div_js ((if gm > 2 then gy + 1 else gy) + 99) 100
              + div_js ((if gm > 2 then gy + 1 else gy) + 399) 400
         = gregorian_year_start gy + (if gm > 2 \<and> gregorian_leap gy then 1 else 0)"
proof (cases "gm > 2")
  case True
  have "365 * gy + div_js (gy + 1 + 3) 4 - div_js (gy + 1 + 99) 100 + div_js (gy + 1 + 399) 400
          = gregorian_year_start (gy + 1) - 365"
    using gy by (simp add: div_js_nonneg gregorian_year_start_def)
  then show ?thesis using True gregorian_year_start_step_leap[of gy] by (simp split: if_splits)
next
  case False
  have "365 * gy + div_js (gy + 3) 4 - div_js (gy + 99) 100 + div_js (gy + 399) 400 = gregorian_year_start gy"
    using gy by (simp add: div_js_nonneg gregorian_year_start_def)
  then show ?thesis using False by simp
qed

text \<open>The day count of line 74 in terms of the year start.\<close>

lemma j2g_days:
  assumes y: "0 \<le> y" "y < 2147483648"
  shows "365 * y + div_js y 33 * 8 + div_js (rem_js y 33 + 3) 4 = jalali_year_start y"
proof -
  have "rem_js y 33 = y mod 33" using y by (simp add: rem_js_nonneg)
  moreover have "div_js (y mod 33 + 3) 4 = (y mod 33 + 3) div 4"
    by (rule div_js_nonneg) (simp_all add: order_less_trans[of _ 36])
  ultimately show ?thesis using y by (simp add: div_js_nonneg jalali_year_start_def)
qed

subsection \<open>Round trips\<close>

lemma valid_gregorian_doy:
  assumes v: "valid_gregorian gy gm gd"
    and feb: "feb = (if gregorian_leap gy then 29 else 28)"
    and n: "n = g_d_m ! nat (gm - 1) + (if gm > 2 then feb - 28 else 0) + gd"
  shows "1 \<le> n" and "n \<le> 337 + feb" and "gd \<le> sal_a_of feb ! nat gm"
proof -
  have m: "1 \<le> gm" "gm \<le> 12" and d: "1 \<le> gd" "gd \<le> gregorian_days_in_month gy gm"
    using v by (simp_all add: valid_gregorian_def)
  have "1 \<le> n \<and> n \<le> 337 + feb \<and> gd \<le> sal_a_of feb ! nat gm"
    using int_1_12[OF m] d
    by (elim disjE)
       (simp_all add: n feb gregorian_days_in_month_def g_d_m_def sal_a_of_def)
  then show "1 \<le> n" and "n \<le> 337 + feb" and "gd \<le> sal_a_of feb ! nat gm" by simp_all
qed

lemma gregorian_round_trip_general:
  assumes gy: "1 \<le> gy" "gy \<le> 5000000" and v: "valid_gregorian gy gm gd"
  shows "\<exists>jy jm jd. gregorianToJalali gy gm gd = Some (jy, jm, jd)
           \<and> jalaliToGregorian jy jm jd = (gy, gm, gd)"
proof -
  define feb :: int where "feb = (if gregorian_leap gy then 29 else 28)"
  define n where "n = g_d_m ! nat (gm - 1) + (if gm > 2 then feb - 28 else 0) + gd"
  have m: "1 \<le> gm" "gm \<le> 12" and d: "1 \<le> gd"
    using v by (simp_all add: valid_gregorian_def)
  note vd = valid_gregorian_doy[OF v feb_def n_def]
  have feb: "feb = 28 \<or> feb = 29" by (simp add: feb_def)
  have febb: "28 \<le> feb" "feb \<le> 29" by (simp_all add: feb_def)
  have gy0: "0 \<le> gy" and gy1: "gy < 2147483000" using gy by simp_all
  define D where "D = 355666 + gregorian_year_start gy + n"
  have Dexp: "355666 + 365 * gy
              + div_js ((if gm > 2 then gy + 1 else gy) + 3) 4
              - div_js ((if gm > 2 then gy + 1 else gy) + 99) 100
              + div_js ((if gm > 2 then gy + 1 else gy) + 399) 400 + gd + g_d_m ! nat (gm - 1) = D"
  proof -
    have "(if gm > 2 then feb - 28 else 0) = (if gm > 2 \<and> gregorian_leap gy then 1 else 0)"
      by (simp add: feb_def)
    then show ?thesis
      using g2j_days[OF gy0 gy1, of gm] unfolding D_def n_def by linarith
  qed
  have Db: "0 \<le> D" "D < 2147483648"
    unfolding D_def using gregorian_year_start_bounds[OF gy0] vd(1,2) febb gy by linarith+
  obtain y k where yk: "jal_year_doy D = (y, k)" by (cases "jal_year_doy D")
  have J: "D = jalali_year_start y + k" "0 \<le> k" "k < jalali_year_start (y + 1) - jalali_year_start y" "0 \<le> y"
    using jal_year_doy_correct[OF Db(1) yk] by simp_all
  have k365: "k \<le> 365" using J(3) jalali_year_start_step[of y] by (simp split: if_splits)
  obtain jm jd where jmd: "jal_month_day k = (jm, jd)" by (cases "jal_month_day k")
  have JM: "1 \<le> jm" "jm \<le> 12" "jal_month_offset jm + jd - 1 = k"
    using jal_month_bwd[OF J(2) k365 jmd] by simp_all
  have g2j: "gregorianToJalali gy gm gd = Some (y - 1595, jm, jd)"
    using m by (simp add: gregorianToJalali_def g2j_stage Dexp jalali_of_days_math[OF Db] yk jmd)
  have yb: "y < 2147483648" using jalali_year_start_bounds(1)[OF J(4)] J(1,2) Db by linarith
  define E where "E = gregorian_year_start gy + (n - 1)"
  have Eexp: "-355668 + 365 * (y - 1595 + 1595) + div_js (y - 1595 + 1595) 33 * 8
        + div_js (rem_js (y - 1595 + 1595) 33 + 3) 4 + jd
        + (if jm < 7 then (jm - 1) * 31 else (jm - 7) * 30 + 186) = E"
    using j2g_days[OF J(4) yb] JM(3) J(1) by (simp add: E_def D_def jal_month_offset_def)
  have Eb: "0 \<le> E" "E < 2147483648"
    unfolding E_def using gregorian_year_start_bounds[OF gy0] vd(1,2) febb gy by linarith+
  obtain y' k' where yk': "greg_year_doy E = (y', k')" by (cases "greg_year_doy E")
  have G: "E = gregorian_year_start y' + k'" "0 \<le> k'" "k' < gregorian_year_start (y' + 1) - gregorian_year_start y'"
    using greg_year_doy_correct[OF Eb(1) yk'] by simp_all
  have "n - 1 < gregorian_year_start (gy + 1) - gregorian_year_start gy"
    using vd(2) by (simp add: gregorian_year_start_step_leap feb_def split: if_splits)
  then have u: "gy = y' \<and> n - 1 = k'"
    using year_unique[where F = gregorian_year_start, OF gregorian_year_start_le_step, of gy "n - 1" y' k'] G vd(1)
    by (simp add: E_def)
  have ml: "month_loop (sal_a_of feb) 0 n = (nat gm, gd)"
    unfolding n_def by (rule month_loop_fwd[OF m d vd(3) feb])
  have e1: "y' = gy" "k' + 1 = n" using u by simp_all
  have "jalaliToGregorian (y - 1595) jm jd =
          (case month_loop (sal_a_of feb) 0 n of (gm', gd') \<Rightarrow> (gy, int gm', gd'))"
    unfolding jalaliToGregorian_def j2g_stage Eexp gregorian_of_days_math[OF Eb] yk' feb_def
    by (simp only: e1 prod.case)
  then have "jalaliToGregorian (y - 1595) jm jd = (gy, gm, gd)"
    using m by (simp add: ml)
  then show ?thesis using g2j by blast
qed

lemma jalali_round_trip_general:
  assumes jy: "0 \<le> jy" "jy \<le> 5000000"
    and m: "1 \<le> jm" "jm \<le> 12"
    and d: "1 \<le> jd" "jd \<le> (if jm \<le> 6 then 31 else 30)"
    and len: "jal_month_offset jm + jd - 1 < jalali_year_start (jy + 1595 + 1) - jalali_year_start (jy + 1595)"
  shows "(case jalaliToGregorian jy jm jd of (gy, gm, gd) \<Rightarrow> gregorianToJalali gy gm gd)
           = Some (jy, jm, jd)"
proof -
  define y where "y = jy + 1595"
  define k where "k = jal_month_offset jm + jd - 1"
  have y0: "0 \<le> y" and yb: "y < 2147483648" and y1: "1595 \<le> y" "y \<le> 5001595"
    using jy by (simp_all add: y_def)
  have k0: "0 \<le> k" using m d by (simp add: k_def jal_month_offset_def)
  have k1: "k < jalali_year_start (y + 1) - jalali_year_start y" using len by (simp add: k_def y_def)
  have k365: "k \<le> 365" using k1 jalali_year_start_step[of y] by (simp split: if_splits)
  define E where "E = jalali_year_start y + k - 355667"
  have Eexp: "-355668 + 365 * (jy + 1595) + div_js (jy + 1595) 33 * 8
        + div_js (rem_js (jy + 1595) 33 + 3) 4 + jd
        + (if jm < 7 then (jm - 1) * 31 else (jm - 7) * 30 + 186) = E"
    using j2g_days[OF y0 yb] by (simp add: E_def k_def y_def jal_month_offset_def)
  have Eb: "0 \<le> E" "E < 2147483648"
    unfolding E_def using jalali_year_start_bounds[OF y0] y1 k0 k365 by linarith+
  obtain gy k1 where yk: "greg_year_doy E = (gy, k1)" by (cases "greg_year_doy E")
  have G: "E = gregorian_year_start gy + k1" "0 \<le> k1" "k1 < gregorian_year_start (gy + 1) - gregorian_year_start gy" "0 \<le> gy"
    using greg_year_doy_correct[OF Eb(1) yk] by simp_all
  define feb :: int where "feb = (if gregorian_leap gy then 29 else 28)"
  have feb: "feb = 28 \<or> feb = 29" by (simp add: feb_def)
  define n where "n = k1 + 1"
  have n: "1 \<le> n" "n \<le> 337 + feb"
    using G(2,3) by (simp_all add: n_def gregorian_year_start_step_leap feb_def split: if_splits)
  obtain gm gd where ml: "month_loop (sal_a_of feb) 0 n = (gm, gd)"
    by (cases "month_loop (sal_a_of feb) 0 n")
  have M: "1 \<le> int gm" "int gm \<le> 12" "1 \<le> gd"
    "n = g_d_m ! (gm - 1) + (if int gm > 2 then feb - 28 else 0) + gd"
    using month_loop_bwd[OF feb n ml] by simp_all
  have j2g: "jalaliToGregorian jy jm jd = (gy, int gm, gd)"
    unfolding jalaliToGregorian_def j2g_stage Eexp gregorian_of_days_math[OF Eb] yk
    using ml by (simp add: feb_def n_def)
  have gyb: "gy < 2147483000" using gregorian_year_start_bounds(1)[OF G(4)] G(1,2) Eb by linarith
  define D where "D = 355666 + gregorian_year_start gy + n"
  have Dexp: "355666 + 365 * gy
              + div_js ((if int gm > 2 then gy + 1 else gy) + 3) 4
              - div_js ((if int gm > 2 then gy + 1 else gy) + 99) 100
              + div_js ((if int gm > 2 then gy + 1 else gy) + 399) 400 + gd
              + g_d_m ! nat (int gm - 1) = D"
  proof -
    have e1: "(if int gm > 2 then feb - 28 else 0) = (if int gm > 2 \<and> gregorian_leap gy then 1 else 0)"
      by (simp add: feb_def)
    have e2: "nat (int gm - 1) = gm - 1" by simp
    show ?thesis
      unfolding e2 D_def using g2j_days[OF G(4) gyb, of "int gm"] M(4) e1 by linarith
  qed
  have DE: "D = jalali_year_start y + k" using G(1) by (simp add: D_def n_def E_def)
  have Db: "0 \<le> D" "D < 2147483648"
    unfolding DE using jalali_year_start_bounds[OF y0] y1 k0 k365 by linarith+
  obtain y' k' where yk': "jal_year_doy D = (y', k')" by (cases "jal_year_doy D")
  have J: "D = jalali_year_start y' + k'" "0 \<le> k'" "k' < jalali_year_start (y' + 1) - jalali_year_start y'"
    using jal_year_doy_correct[OF Db(1) yk'] by simp_all
  have u: "y = y' \<and> k = k'"
    using year_unique[where F = jalali_year_start, OF jalali_year_start_le_step, of y k y' k'] J k0 k1 DE by simp
  have jmd: "jal_month_day k = (jm, jd)"
    unfolding k_def by (rule jal_month_fwd[OF m d])
  have "gregorianToJalali gy (int gm) gd = Some (jalali_of_days D)"
    unfolding gregorianToJalali_def g2j_stage Dexp using M(1,2) by simp
  also have "jalali_of_days D = (jy, jm, jd)"
    using u jmd by (simp add: jalali_of_days_math[OF Db] yk' y_def)
  finally show ?thesis by (simp add: j2g)
qed

text \<open>
  \<open>getJalaliDaysInMonth\<close> decides the leap years by a rule of its own. Between 1300 and
  1500 every year it calls leap is a leap year of the converters too, except 1404, 1437
  and 1470.
\<close>

lemma leap_agree_list:
  "\<forall>jy \<in> set [1300..1500]. rem_js ((jy + 38) * 31) 128 \<le> 30 \<longrightarrow>
      jy = 1404 \<or> jy = 1437 \<or> jy = 1470
      \<or> ((jy + 1595) mod 33 \<noteq> 32 \<and> (jy + 1595) mod 33 mod 4 = 0)"
  by code_simp

lemma leap_agree:
  assumes "1300 \<le> jy" "jy \<le> 1500" "rem_js ((jy + 38) * 31) 128 \<le> 30"
    "\<not> (jy = 1404 \<or> jy = 1437 \<or> jy = 1470)"
  shows "jalali_year_start (jy + 1595 + 1) - jalali_year_start (jy + 1595) = 366"
proof -
  have "jy \<in> set [1300..1500]" unfolding set_upto using assms(1,2) by simp
  then have "(jy + 1595) mod 33 \<noteq> 32 \<and> (jy + 1595) mod 33 mod 4 = 0"
    using leap_agree_list assms(3,4) by blast
  then show ?thesis using jalali_year_start_step[of "jy + 1595"] by simp
qed

text \<open>
  C1, as stated, fails: \<open>getJalaliDaysInMonth(1404, 12)\<close> is 30, but the converters give
  Esfand 1404 only 29 days, and 30 Esfand 1404 comes back as 1 Farvardin 1405.
\<close>

theorem jalali_round_trip_counterexample:
  "(1300::int) \<le> 1404 \<and> (1404::int) \<le> 1500 \<and> (1::int) \<le> 12 \<and> (12::int) \<le> 12
   \<and> (1::int) \<le> 30 \<and> 30 \<le> getJalaliDaysInMonth 1404 12
   \<and> (case jalaliToGregorian 1404 12 30 of (gy, gm, gd) \<Rightarrow> gregorianToJalali gy gm gd)
        = Some (1405, 1, 1)"
  by code_simp

text \<open>
  C1, amended. For every Jalali date with the year from 1300 to 1500, the month from 1 to
  12 and the day from 1 to \<open>getJalaliDaysInMonth(jy, jm)\<close>, other than 30 Esfand of
  1404, 1437 and 1470, \<open>gregorianToJalali\<close> applied to the result of
  \<open>jalaliToGregorian\<close> returns the date.
\<close>

theorem jalali_round_trip:
  assumes jy: "1300 \<le> jy" "jy \<le> 1500"
    and m: "1 \<le> jm" "jm \<le> 12"
    and d: "1 \<le> jd" "jd \<le> getJalaliDaysInMonth jy jm"
    and ex: "\<not> (jm = 12 \<and> jd = 30 \<and> (jy = 1404 \<or> jy = 1437 \<or> jy = 1470))"
  shows "(case jalaliToGregorian jy jm jd of (gy, gm, gd) \<Rightarrow> gregorianToJalali gy gm gd)
           = Some (jy, jm, jd)"
proof -
  have d': "jd \<le> (if jm \<le> 6 then 31 else 30)"
    using d(2) by (simp add: getJalaliDaysInMonth_def Let_def split: if_splits)
  have len365: "365 \<le> jalali_year_start (jy + 1595 + 1) - jalali_year_start (jy + 1595)"
    using jalali_year_start_step[of "jy + 1595"] by (simp split: if_splits)
  have "jal_month_offset jm + jd - 1 < jalali_year_start (jy + 1595 + 1) - jalali_year_start (jy + 1595)"
  proof (cases "jm = 12 \<and> jd = 30")
    case True
    then have "rem_js ((jy + 38) * 31) 128 \<le> 30"
      using d(2) by (simp add: getJalaliDaysInMonth_def Let_def split: if_splits)
    moreover have "\<not> (jy = 1404 \<or> jy = 1437 \<or> jy = 1470)" using ex True by simp
    ultimately have "jalali_year_start (jy + 1595 + 1) - jalali_year_start (jy + 1595) = 366"
      using leap_agree[OF jy] by simp
    then show ?thesis using True by (simp add: jal_month_offset_def)
  next
    case False
    have "jal_month_offset jm + jd - 1 \<le> 364"
    proof (cases "jm = 12")
      case True
      then have "jd \<le> 29" using False d' by simp
      then show ?thesis using True by (simp add: jal_month_offset_def)
    next
      case False
      then have "jm \<le> 11" using m by simp
      then show ?thesis using d' m
        by (cases "jm \<le> 6") (simp_all add: jal_month_offset_def)
    qed
    then show ?thesis using len365 by linarith
  qed
  then show ?thesis
    using jalali_round_trip_general[of jy jm jd] jy m d(1) d' by simp
qed

theorem jalali_round_trip_witness:
  "(1300::int) \<le> 1399 \<and> (1399::int) \<le> 1500 \<and> (1::int) \<le> 12 \<and> (12::int) \<le> 12 \<and> (1::int) \<le> 30
   \<and> 30 \<le> getJalaliDaysInMonth 1399 12
   \<and> \<not> ((12::int) = 12 \<and> (30::int) = 30 \<and> ((1399::int) = 1404 \<or> (1399::int) = 1437 \<or> (1399::int) = 1470))
   \<and> (case jalaliToGregorian 1399 12 30 of (gy, gm, gd) \<Rightarrow> gregorianToJalali gy gm gd)
        = Some (1399, 12, 30)"
proof -
  have d: "30 \<le> getJalaliDaysInMonth 1399 12"
    by (simp add: getJalaliDaysInMonth_def rem_js_def trunc_quot_def)
  show ?thesis
    using jalali_round_trip[of 1399 12 30] d by simp
qed

text \<open>
  C2. For every valid Gregorian date with the year from 1921 to 2121,
  \<open>jalaliToGregorian\<close> applied to the result of \<open>gregorianToJalali\<close> returns the date.
\<close>

theorem gregorian_round_trip:
  assumes "1921 \<le> gy" and "gy \<le> 2121" and "valid_gregorian gy gm gd"
  shows "\<exists>jy jm jd. gregorianToJalali gy gm gd = Some (jy, jm, jd)
           \<and> jalaliToGregorian jy jm jd = (gy, gm, gd)"
  using assms by (intro gregorian_round_trip_general) simp_all

theorem gregorian_round_trip_witness:
  "(1921::int) \<le> 2024 \<and> (2024::int) \<le> 2121 \<and> valid_gregorian 2024 2 29
   \<and> (\<exists>jy jm jd. gregorianToJalali 2024 2 29 = Some (jy, jm, jd)
           \<and> jalaliToGregorian jy jm jd = (2024, 2, 29))"
proof -
  have v: "valid_gregorian 2024 2 29"
    by (simp add: valid_gregorian_def gregorian_days_in_month_def gregorian_leap_def)
  show ?thesis using gregorian_round_trip[of 2024 2 29] v by simp
qed

section \<open>The Hijri date is structurally valid\<close>

text \<open>Every floor in \<open>gregorianToHijri\<close> is the floor of a fraction of two integers.\<close>

lemma floor_frac: "\<lfloor>(of_int a :: rat) / of_int b\<rfloor> = a div b"
  by (rule floor_divide_of_int_eq)

lemma jdn_hijri_int:
  "jdn_hijri jd =
    (let z = jd - 1948084;
         cyc = z div 10631;
         z1 = z - 10631 * cyc;
         j = (6000 * z1 - 801) div 2126200;
         z2 = z1 - (2126200 * j + 801) div 6000;
         im0 = (10000 * z2 + 285001) div 295000;
         im = (if im0 = 13 then 12 else im0);
         im = (if im = 0 then 1 else im)
     in (30 * cyc + j, im, z2 - (59 * im - 58) div 2))"
proof -
  have a: "\<lfloor>(of_int z :: rat) / 10631\<rfloor> = z div 10631" for z
    using floor_frac[of z 10631] by simp
  have b: "\<lfloor>((of_int z1 :: rat) - 8.01 / 60) / (10631 / 30)\<rfloor> = (6000 * z1 - 801) div 2126200" for z1
  proof -
    have "((of_int z1 :: rat) - 8.01 / 60) / (10631 / 30) = of_int (6000 * z1 - 801) / of_int 2126200"
      by (simp add: field_simps)
    then show ?thesis by (simp only: floor_frac)
  qed
  have c: "\<lfloor>(of_int j :: rat) * (10631 / 30) + 8.01 / 60\<rfloor> = (2126200 * j + 801) div 6000" for j
  proof -
    have "(of_int j :: rat) * (10631 / 30) + 8.01 / 60 = of_int (2126200 * j + 801) / of_int 6000"
      by (simp add: field_simps)
    then show ?thesis by (simp only: floor_frac)
  qed
  have d: "\<lfloor>((of_int z2 :: rat) + 28.5001) / 29.5\<rfloor> = (10000 * z2 + 285001) div 295000" for z2
  proof -
    have "((of_int z2 :: rat) + 28.5001) / 29.5 = of_int (10000 * z2 + 285001) / of_int 295000"
      by (simp add: field_simps)
    then show ?thesis by (simp only: floor_frac)
  qed
  have e: "\<lfloor>(29.5 :: rat) * of_int im - 29\<rfloor> = (59 * im - 58) div 2" for im
  proof -
    have "(29.5 :: rat) * of_int im - 29 = of_int (59 * im - 58) / of_int 2"
      by (simp add: field_simps)
    then show ?thesis by (simp only: floor_frac)
  qed
  show ?thesis
    unfolding jdn_hijri_def Let_def a b c d e by (rule refl)
qed

text \<open>
  The day within the Hijri year, \<open>z\<close> after line 158, lies between 1 and 355, whatever
  the day number was.
\<close>

lemma hijri_day_of_year:
  fixes z1 :: int
  defines "j \<equiv> (6000 * z1 - 801) div 2126200"
  defines "z2 \<equiv> z1 - (2126200 * j + 801) div 6000"
  shows "1 \<le> z2" and "z2 \<le> 355"
proof -
  define t where "t = (2126200 * j + 801) div 6000"
  have j1: "2126200 * j \<le> 6000 * z1 - 801" and j2: "6000 * z1 - 801 < 2126200 * j + 2126200"
  proof -
    have e: "6000 * z1 - 801 = 2126200 * j + (6000 * z1 - 801) mod 2126200"
      by (simp add: j_def)
    have "0 \<le> (6000 * z1 - 801) mod 2126200" "(6000 * z1 - 801) mod 2126200 < 2126200"
      by simp_all
    then show "2126200 * j \<le> 6000 * z1 - 801" "6000 * z1 - 801 < 2126200 * j + 2126200"
      using e by linarith+
  qed
  have t1: "6000 * t \<le> 2126200 * j + 801" and t2: "2126200 * j + 801 < 6000 * t + 6000"
  proof -
    have e: "2126200 * j + 801 = 6000 * t + (2126200 * j + 801) mod 6000"
      by (simp add: t_def)
    have "0 \<le> (2126200 * j + 801) mod 6000" "(2126200 * j + 801) mod 6000 < 6000"
      by simp_all
    then show "6000 * t \<le> 2126200 * j + 801" "2126200 * j + 801 < 6000 * t + 6000"
      using e by linarith+
  qed
  have ne: "6000 * t \<noteq> 2126200 * j + 801"
  proof
    assume "6000 * t = 2126200 * j + 801"
    then have "even (2126200 * j + 801)" by (metis even_mult_iff even_numeral)
    then show False by simp
  qed
  have z2: "z2 = z1 - t" by (simp add: z2_def t_def)
  show "1 \<le> z2" unfolding z2 using j1 t1 ne by linarith
  show "z2 \<le> 355" unfolding z2 using j2 t2 by linarith
qed

text \<open>
  The month computed on line 159 lies between 1 and 13, so that the clamp of 13 to 12 is
  the only one that acts; the day then lies between 1 and 30.
\<close>

lemma hijri_month_day:
  fixes z2 :: int
  assumes z2: "1 \<le> z2" "z2 \<le> 355"
  defines "im0 \<equiv> (10000 * z2 + 285001) div 295000"
  defines "im \<equiv> (if im0 = 13 then 12 else im0)"
  defines "dy \<equiv> z2 - (59 * im - 58) div 2"
  shows "1 \<le> im0" "im0 \<le> 13" "1 \<le> im" "im \<le> 12" "1 \<le> dy" "dy \<le> 30"
proof -
  have e: "10000 * z2 + 285001 = 295000 * im0 + (10000 * z2 + 285001) mod 295000"
    by (simp add: im0_def)
  have r: "0 \<le> (10000 * z2 + 285001) mod 295000" "(10000 * z2 + 285001) mod 295000 < 295000"
    by simp_all
  have m1: "295000 * im0 \<le> 10000 * z2 + 285001" and m2: "10000 * z2 + 285001 < 295000 * im0 + 295000"
    using e r by linarith+
  show i1: "1 \<le> im0" using m2 z2 by linarith
  show i13: "im0 \<le> 13" using m1 z2 by linarith
  show "1 \<le> im" using i1 by (simp add: im_def)
  show "im \<le> 12" using i13 by (simp add: im_def)
  define u where "u = (59 * im - 58) div 2"
  have f: "59 * im - 58 = 2 * u + (59 * im - 58) mod 2" by (simp add: u_def)
  have s: "0 \<le> (59 * im - 58) mod 2" "(59 * im - 58) mod 2 < 2" by simp_all
  have u1: "2 * u \<le> 59 * im - 58" and u2: "59 * im - 58 \<le> 2 * u + 1" using f s by linarith+
  have dy: "dy = z2 - u" by (simp add: dy_def u_def)
  show "1 \<le> dy"
  proof (cases "im0 = 13")
    case True
    then have "z2 = 355" "im = 12" using m1 z2 by (simp_all add: im_def)
    then show ?thesis using u1 u2 unfolding dy by linarith
  next
    case False
    then have "im = im0" by (simp add: im_def)
    then show ?thesis using m1 m2 u1 u2 unfolding dy by linarith
  qed
  show "dy \<le> 30"
  proof (cases "im0 = 13")
    case True
    then have "z2 = 355" "im = 12" using m1 z2 by (simp_all add: im_def)
    then show ?thesis using u1 u2 unfolding dy by linarith
  next
    case False
    then have "im = im0" by (simp add: im_def)
    then show ?thesis using m1 m2 u1 u2 unfolding dy by linarith
  qed
qed


section \<open>The Julian day number and its inversion\<close>

lemma gregorian_jdn_int:
  "gregorian_jdn year month day =
    (let (y, m) = (if month < 3 then (year - 1, month + 12) else (year, month));
         a = y div 100;
         b = 2 - a + a div 4;
         b = (if y < 1583 then 0 else b);
         b = (if y = 1582
              then (let b = (if m > 10 then -10 else b)
                    in if m = 10 then (if day > 4 then -10 else 0) else b)
              else b)
     in (1461 * (y + 4716)) div 4 + (306001 * (m + 1)) div 10000 + day + b - 1524)"
proof -
  have a: "\<lfloor>(of_int y :: rat) / 100\<rfloor> = y div 100" for y
    using floor_frac[of y 100] by simp
  have b: "\<lfloor>(of_int a :: rat) / 4\<rfloor> = a div 4" for a
    using floor_frac[of a 4] by simp
  have c: "\<lfloor>(365.25 :: rat) * of_int n\<rfloor> = (1461 * n) div 4" for n
  proof -
    have "(365.25 :: rat) * of_int n = of_int (1461 * n) / of_int 4"
      by (simp add: field_simps)
    then show ?thesis by (simp only: floor_frac)
  qed
  have d: "\<lfloor>(30.6001 :: rat) * of_int n\<rfloor> = (306001 * n) div 10000" for n
  proof -
    have "(30.6001 :: rat) * of_int n = of_int (306001 * n) / of_int 10000"
      by (simp add: field_simps)
    then show ?thesis by (simp only: floor_frac)
  qed
  show ?thesis
    unfolding gregorian_jdn_def a b c d by (rule refl)
qed

lemma jdn_gregorian_int:
  "jdn_gregorian jd =
    (let b = (if jd > 2299160
              then (let a = (4 * jd - 7468865) div 146097 in 1 + a - a div 4)
              else 0);
         bb = jd + b + 1524;
         cc = (20 * bb - 2442) div 7305;
         dd = (1461 * cc) div 4;
         ee = (10000 * (bb - dd)) div 306001;
         day = (bb - dd) - (306001 * ee) div 10000;
         (cc, month) = (if ee > 13 then (cc + 1, ee - 13) else (cc, ee - 1));
         year = cc - 4716
     in (year, month, day))"
proof -
  have a: "\<lfloor>((of_int jd :: rat) - 1867216.25) / 36524.25\<rfloor> = (4 * jd - 7468865) div 146097" for jd
  proof -
    have "((of_int jd :: rat) - 1867216.25) / 36524.25 = of_int (4 * jd - 7468865) / of_int 146097"
      by (simp add: field_simps)
    then show ?thesis by (simp only: floor_frac)
  qed
  have b: "\<lfloor>(of_int a :: rat) / 4\<rfloor> = a div 4" for a
    using floor_frac[of a 4] by simp
  have c: "\<lfloor>((of_int bb :: rat) - 122.1) / 365.25\<rfloor> = (20 * bb - 2442) div 7305" for bb
  proof -
    have "((of_int bb :: rat) - 122.1) / 365.25 = of_int (20 * bb - 2442) / of_int 7305"
      by (simp add: field_simps)
    then show ?thesis by (simp only: floor_frac)
  qed
  have d: "\<lfloor>(365.25 :: rat) * of_int n\<rfloor> = (1461 * n) div 4" for n
  proof -
    have "(365.25 :: rat) * of_int n = of_int (1461 * n) / of_int 4"
      by (simp add: field_simps)
    then show ?thesis by (simp only: floor_frac)
  qed
  have e: "\<lfloor>(of_int n :: rat) / 30.6001\<rfloor> = (10000 * n) div 306001" for n
  proof -
    have "(of_int n :: rat) / 30.6001 = of_int (10000 * n) / of_int 306001"
      by (simp add: field_simps)
    then show ?thesis by (simp only: floor_frac)
  qed
  have f: "\<lfloor>(30.6001 :: rat) * of_int n\<rfloor> = (306001 * n) div 10000" for n
  proof -
    have "(30.6001 :: rat) * of_int n = of_int (306001 * n) / of_int 10000"
      by (simp add: field_simps)
    then show ?thesis by (simp only: floor_frac)
  qed
  show ?thesis
    unfolding jdn_gregorian_def a b c d e f by (rule refl)
qed

lemma jdn_month_facts:
  assumes v: "valid_gregorian gy gm gd"
  defines "m \<equiv> (if gm < 3 then gm + 12 else gm)"
  defines "mo \<equiv> (306001 * (m + 1)) div 10000"
  shows "123 \<le> mo + gd" and "mo + gd \<le> 488"
    and "mo + gd = 488 \<Longrightarrow> gm = 2 \<and> gd = 29"
    and "(10000 * (mo + gd)) div 306001 = m + 1"
proof -
  have mm: "1 \<le> gm" "gm \<le> 12" and d: "1 \<le> gd" "gd \<le> gregorian_days_in_month gy gm"
    using v by (simp_all add: valid_gregorian_def)
  have "123 \<le> mo + gd \<and> mo + gd \<le> 488 \<and> (mo + gd = 488 \<longrightarrow> gm = 2 \<and> gd = 29)
        \<and> 306001 * (m + 1) \<le> 10000 * (mo + gd) \<and> 10000 * (mo + gd) < 306001 * (m + 1) + 306001"
    using int_1_12[OF mm] d
    by (elim disjE) (simp_all add: m_def mo_def gregorian_days_in_month_def split: if_splits)
  then show "123 \<le> mo + gd" and "mo + gd \<le> 488" and "mo + gd = 488 \<Longrightarrow> gm = 2 \<and> gd = 29"
    and "(10000 * (mo + gd)) div 306001 = m + 1"
    using int_div_pos_eq[of "10000 * (mo + gd)" 306001 "m + 1" "10000 * (mo + gd) - 306001 * (m + 1)"]
    by simp_all
qed

lemma leap_day_facts:
  assumes leap: "gregorian_leap (y + 1)" and y: "y = 100 * a + r" and r: "0 \<le> r" "r \<le> 99"
  shows "r mod 4 = 3" and "r = 99 \<Longrightarrow> a mod 4 = 3"
proof -
  have l4: "(y + 1) mod 4 = 0" and l100: "(y + 1) mod 100 = 0 \<Longrightarrow> (y + 1) mod 400 = 0"
    using leap by (auto simp: gregorian_leap_def)
  have e: "y + 1 = 4 * (25 * a) + (r + 1)" by (simp add: y)
  have "(y + 1) mod 4 = (r + 1) mod 4" unfolding e by (simp only: mod_mult_self4)
  then have "(r + 1) mod 4 = 0" using l4 by simp
  then show "r mod 4 = 3" by presburger
  show "a mod 4 = 3" if "r = 99"
  proof -
    have e100: "y + 1 = 100 * (a + 1) + 0" using that by (simp add: y)
    have "(y + 1) mod 100 = 0" using int_mod_pos_eq[OF e100] by simp
    then have "(y + 1) mod 400 = 0" by (rule l100)
    then have "400 dvd (y + 1)" by (simp add: dvd_eq_mod_eq_0)
    then obtain k where k: "y + 1 = 400 * k" by (auto elim: dvdE)
    have "a = 4 * (k - 1) + 3" using k e100 by simp
    from int_mod_pos_eq[OF this] show ?thesis by simp
  qed
qed

lemma jdn_round_trip_general:
  assumes gy: "1583 \<le> gy" and v: "valid_gregorian gy gm gd"
  shows "jdn_gregorian (gregorian_jdn gy gm gd) = (gy, gm, gd)"
proof -
  have mm: "1 \<le> gm" "gm \<le> 12" and d: "1 \<le> gd" "gd \<le> gregorian_days_in_month gy gm"
    using v by (simp_all add: valid_gregorian_def)
  define y where "y = (if gm < 3 then gy - 1 else gy)"
  define m where "m = (if gm < 3 then gm + 12 else gm)"
  define mo where "mo = (306001 * (m + 1)) div 10000"
  define a where "a = y div 100"
  define r where "r = y mod 100"
  define Y where "Y = y + 4716"
  define c4 where "c4 = (1461 * Y) div 4"
  define md where "md = mo + gd"
  note mf = jdn_month_facts[OF v, folded m_def, folded mo_def, folded md_def]
  have y1582: "1582 \<le> y" and ym: "y = 1582 \<Longrightarrow> 13 \<le> m" and m3: "3 \<le> m" "m \<le> 14"
    using gy mm by (auto simp: y_def m_def split: if_splits)
  have ya: "y = 100 * a + r" and r: "0 \<le> r" "r \<le> 99"
    by (simp_all add: a_def r_def)
  have a15: "15 \<le> a" using y1582 ya r by linarith
  define aq where "aq = a div 4"
  define ar where "ar = a mod 4"
  define rq where "rq = r div 4"
  define rr where "rr = r mod 4"
  have a4: "a = 4 * aq + ar" and am: "0 \<le> ar" "ar \<le> 3" by (simp_all add: aq_def ar_def)
  have r4: "r = 4 * rq + rr" and rm: "0 \<le> rr" "rr \<le> 3" by (simp_all add: rq_def rr_def)
  have rd: "0 \<le> rq" using r by (simp add: rq_def pos_imp_zdiv_nonneg_iff)
  have rq24: "rq \<le> 24" using r r4 rm by linarith
  text \<open>The leap day needs the leap year.\<close>
  have feb29: "md = 488 \<Longrightarrow> rr = 3 \<and> (r = 99 \<longrightarrow> ar = 3)"
  proof -
    assume "md = 488"
    then have g: "gm = 2" "gd = 29" using mf(3) by simp_all
    then have "gregorian_leap gy"
      using d(2) by (simp add: gregorian_days_in_month_def split: if_splits)
    then have "gregorian_leap (y + 1)" using g by (simp add: y_def)
    from leap_day_facts[OF this ya r] show ?thesis by (simp add: rr_def ar_def)
  qed
  text \<open>The day number.\<close>
  have c4e: "1461 * Y = 4 * (365 * Y + 25 * a + 1179 + rq) + rr"
    using ya r4 by (simp add: Y_def)
  have c4: "c4 = 365 * Y + 25 * a + 1179 + rq"
    unfolding c4_def using int_div_pos_eq[OF c4e] rm by simp
  define bG where "bG = 2 - a + aq"
  have pair: "(if gm < 3 then (gy - 1, gm + 12) else (gy, gm)) = (y, m)"
    by (simp add: y_def m_def)
  have jdn: "gregorian_jdn gy gm gd = c4 + md + bG - 1524"
  proof (cases "y = 1582")
    case True
    then have "13 \<le> m" using ym by simp
    then show ?thesis
      unfolding gregorian_jdn_int pair prod.case using True
      by (simp add: c4_def Y_def md_def mo_def bG_def aq_def a_def Let_def)
  next
    case False
    then have "\<not> y < 1583" using y1582 by simp
    then show ?thesis
      unfolding gregorian_jdn_int pair prod.case using False
      by (simp add: c4_def Y_def md_def mo_def bG_def aq_def a_def Let_def)
  qed
  define jd where "jd = c4 + md + bG - 1524"
  have big: "2299160 < jd"
  proof (cases "y = 1582")
    case True
    then have "a = 15" "aq = 3" "rq = 20" "13 \<le> m"
      using ym by (simp_all add: a_def r_def aq_def rq_def)
    moreover have "428 \<le> mo" 
    proof -
      have "(306001 * 14) div 10000 \<le> (306001 * (m + 1)) div (10000::int)"
        using \<open>13 \<le> m\<close> by (intro zdiv_mono1) simp_all
      then show ?thesis by (simp add: mo_def)
    qed
    ultimately show ?thesis using d(1) by (simp add: jd_def c4 bG_def Y_def md_def True)
  next
    case False
    then have "1583 \<le> y" using y1582 by simp
    then show ?thesis
      unfolding jd_def c4 bG_def using Y_def mf(1) a15 a4 am rd by linarith
  qed
  text \<open>The century.\<close>
  have ce: "4 * jd - 7468865 = 146097 * (a - 4)
              + (1460 * r + 4 * rq + 4 * md - ar - 489)"
    unfolding jd_def c4 bG_def using a4 by (simp add: Y_def ya algebra_simps)
  have cr: "0 \<le> 1460 * r + 4 * rq + 4 * md - ar - 489"
    using r rd mf(1) am by linarith
  have cr': "1460 * r + 4 * rq + 4 * md - ar - 489 < 146097"
  proof (cases "md = 488 \<and> r = 99")
    case True
    then have "ar = 3" "md = 488" "r = 99" using feb29 by simp_all
    then show ?thesis using rq24 by linarith
  next
    case False
    then have "md \<le> 487 \<or> r \<le> 98" using mf(2) r by linarith
    then show ?thesis
    proof
      assume "md \<le> 487" then show ?thesis using r rq24 am by linarith
    next
      assume "r \<le> 98" then show ?thesis using rq24 am mf(2) by linarith
    qed
  qed
  have cent: "(4 * jd - 7468865) div 146097 = a - 4"
    using int_div_pos_eq[OF ce cr cr'] .
  have a44: "(a - 4) div 4 = aq - 1"
  proof -
    have "a - 4 = 4 * (aq - 1) + ar" using a4 by (simp add: algebra_simps)
    from int_div_pos_eq[OF this] show ?thesis using am by simp
  qed
  define bb where "bb = c4 + md"
  have bb: "jd + (1 + (a - 4) - (a - 4) div 4) + 1524 = bb"
    by (simp add: a44 jd_def bb_def bG_def)
  text \<open>The year.\<close>
  have ye: "20 * bb - 2442 = 7305 * Y + (20 * md - 2442 - 5 * (rr))"
    unfolding bb_def using c4e c4 by (simp add: algebra_simps)
  have yr: "0 \<le> 20 * md - 2442 - 5 * (rr)" using mf(1) rm by linarith
  have yr': "20 * md - 2442 - 5 * (rr) < 7305"
  proof (cases "md = 488")
    case True
    then have "rr = 3" using feb29 by simp
    then show ?thesis using True by simp
  next
    case False
    then have "md \<le> 487" using mf(2) by linarith
    then show ?thesis using rm by linarith
  qed
  have cc: "(20 * bb - 2442) div 7305 = Y"
    using int_div_pos_eq[OF ye yr yr'] .
  have dd: "(1461 * Y) div 4 = c4" by (simp add: c4_def)
  have rest: "bb - c4 = mo + gd" by (simp add: bb_def md_def)
  have "jdn_gregorian jd =
          (case (if m + 1 > 13 then (Y + 1, m + 1 - 13) else (Y, m + 1 - 1)) of
             (cc, month) \<Rightarrow> (cc - 4716, month, mo + gd - mo))"
    unfolding jdn_gregorian_int Let_def
    by (simp only: big if_True cent bb cc dd rest mf(4)[unfolded md_def] mo_def[symmetric])
  then have "jdn_gregorian jd = (gy, gm, gd)"
    using mm by (simp add: Y_def y_def m_def)
  then show ?thesis by (simp add: jdn jd_def)
qed

section \<open>Validation of the exact model against double precision\<close>

text \<open>
  The rounding function stays within a relative error of \<open>2^-53\<close>, is the identity on
  integers below \<open>2^53\<close>, and cannot move a quotient of integers across an integer.
\<close>

lemma bitlen_pos_bounds:
  assumes "0 < (p::int)"
  shows "(2::rat) powi (bitlen p - 1) \<le> of_int p" and "of_int p < (2::rat) powi (bitlen p)"
proof -
  have b: "2 ^ nat (bitlen p - 1) \<le> p" "p < 2 ^ nat (bitlen p)"
    using bitlen_bounds[OF assms] by simp_all
  have b1: "1 \<le> bitlen p" using assms by (simp add: bitlen_alt_def)
  have "(2::rat) powi (bitlen p - 1) = 2 ^ nat (bitlen p - 1)"
    using b1 by (simp add: power_int_def)
  also have "\<dots> = of_int (2 ^ nat (bitlen p - 1))" by simp
  also have "\<dots> \<le> of_int p" using b(1) by (simp only: of_int_le_iff)
  finally show "(2::rat) powi (bitlen p - 1) \<le> of_int p" .
  have "(of_int p :: rat) < of_int (2 ^ nat (bitlen p))" using b(2) by (simp only: of_int_less_iff)
  also have "\<dots> = 2 ^ nat (bitlen p)" by simp
  also have "\<dots> = (2::rat) powi (bitlen p)" using b1 by (simp add: power_int_def)
  finally show "of_int p < (2::rat) powi (bitlen p)" .
qed

lemma ilog2_bounds:
  assumes "x \<noteq> 0"
  shows "2 powi (ilog2 x) \<le> \<bar>x\<bar>" and "\<bar>x\<bar> < 2 powi (ilog2 x + 1)"
proof -
  obtain p q where pq: "quotient_of \<bar>x\<bar> = (p, q)" by (cases "quotient_of \<bar>x\<bar>")
  have q: "0 < q" using quotient_of_denom_pos[OF pq] .
  have x: "\<bar>x\<bar> = of_int p / of_int q" using quotient_of_div[OF pq] .
  have p: "0 < p"
  proof -
    have "0 < \<bar>x\<bar>" using assms by simp
    then have "0 < (of_int p :: rat) / of_int q" using x by simp
    then show ?thesis using q by (simp add: zero_less_divide_iff)
  qed
  define e where "e = bitlen p - bitlen q"
  have qq: "0 < (of_int q :: rat)" using q by simp
  have lo: "(2::rat) powi (e - 1) * of_int q \<le> of_int p"
  proof -
    have "(2::rat) powi (e - 1) * of_int q \<le> 2 powi (e - 1) * 2 powi (bitlen q)"
      using bitlen_pos_bounds(2)[OF q] by (simp add: mult_left_mono)
    also have "\<dots> = 2 powi (bitlen p - 1)"
      by (simp add: e_def power_int_add[symmetric])
    also have "\<dots> \<le> of_int p" using bitlen_pos_bounds(1)[OF p] .
    finally show ?thesis .
  qed
  have hi: "of_int p < (2::rat) powi (e + 1) * of_int q"
  proof -
    have "of_int p < (2::rat) powi (bitlen p)" using bitlen_pos_bounds(2)[OF p] .
    also have "\<dots> = 2 powi (e + 1) * 2 powi (bitlen q - 1)"
      by (simp add: e_def power_int_add[symmetric])
    also have "\<dots> \<le> 2 powi (e + 1) * of_int q"
      using bitlen_pos_bounds(1)[OF q] by (simp add: mult_left_mono)
    finally show ?thesis .
  qed
  have il: "ilog2 x = (if of_int p < (2 :: rat) powi e * of_int q then e - 1 else e)"
    by (simp add: ilog2_def pq e_def)
  have d: "a * of_int q \<le> of_int p \<longleftrightarrow> a \<le> \<bar>x\<bar>" "of_int p < a * of_int q \<longleftrightarrow> \<bar>x\<bar> < a" for a :: rat
    using qq by (simp_all add: x field_simps)
  show "2 powi (ilog2 x) \<le> \<bar>x\<bar>"
    using lo by (auto simp: il d not_less)
  show "\<bar>x\<bar> < 2 powi (ilog2 x + 1)"
    using hi by (auto simp: il d)
qed

lemma rne_error: "\<bar>of_int (rne x) - x\<bar> \<le> 1 / 2"
proof -
  have "0 \<le> x - of_int \<lfloor>x\<rfloor>" "x - of_int \<lfloor>x\<rfloor> < 1" by linarith+
  then show ?thesis by (auto simp: rne_def Let_def abs_le_iff) 
qed

lemma rne_of_int [simp]: "rne (of_int n) = n"
  by (simp add: rne_def)

lemma fl_error: "\<bar>fl x - x\<bar> \<le> \<bar>x\<bar> / 2 ^ 53"
proof (cases "x = 0")
  case True
  then show ?thesis by (simp add: fl_def)
next
  case False
  define s :: rat where "s = 2 powi (ilog2 x - 52)"
  have s: "0 < s" by (simp add: s_def)
  have "fl x - x = s * (of_int (rne (x / s)) - x / s)"
    using False s by (simp add: fl_def s_def[symmetric] Let_def field_simps)
  then have "\<bar>fl x - x\<bar> = s * \<bar>of_int (rne (x / s)) - x / s\<bar>"
    using s by (simp add: abs_mult)
  also have "\<dots> \<le> s * (1 / 2)"
    using rne_error[of "x / s"] s by (intro mult_left_mono) simp_all
  also have "\<dots> = 2 powi (ilog2 x) / 2 ^ 53"
  proof -
    have "(2::rat) powi (ilog2 x - 52) = 2 powi (ilog2 x) * 2 powi (- 52)"
      using power_int_add[of "2::rat" "ilog2 x" "- 52"] by simp
    then show ?thesis by (simp add: s_def power_int_minus field_simps)
  qed
  also have "\<dots> \<le> \<bar>x\<bar> / 2 ^ 53"
    using ilog2_bounds(1)[OF False] by (simp add: divide_right_mono)
  finally show ?thesis .
qed

lemma fl_exact:
  assumes m: "\<bar>m\<bar> < 2 ^ 53"
  shows "fl (of_int m / 2 ^ k) = of_int m / 2 ^ k"
proof (cases "m = 0")
  case True
  then show ?thesis by (simp add: fl_def)
next
  case False
  define x :: rat where "x = of_int m / 2 ^ k"
  have x0: "x \<noteq> 0" using False by (simp add: x_def)
  define e where "e = ilog2 x"
  have "(2::rat) powi e \<le> \<bar>x\<bar>" using ilog2_bounds(1)[OF x0] by (simp add: e_def)
  also have "\<bar>x\<bar> = of_int \<bar>m\<bar> / 2 ^ k" by (simp add: x_def)
  also have "\<dots> < 2 ^ 53 / 2 ^ k"
  proof -
    have "(of_int \<bar>m\<bar> :: rat) < of_int (2 ^ 53)" using m by (simp only: of_int_less_iff)
    then show ?thesis by (simp add: divide_strict_right_mono)
  qed
  also have "\<dots> = 2 powi (53 - int k)"
    using power_int_diff[of "2::rat" 53 "int k"] by simp
  finally have "(2::rat) powi e < 2 powi (53 - int k)" .
  then have ek: "e < 53 - int k"
  proof (rule contrapos_pp)
    assume "\<not> e < 53 - int k"
    then have "(2::rat) powi (53 - int k) \<le> 2 powi e"
      by (intro power_int_increasing) simp_all
    then show "\<not> (2::rat) powi e < 2 powi (53 - int k)" by simp
  qed
  define t where "t = nat (52 - e - int k)"
  have t: "int t = 52 - e - int k" using ek by (simp add: t_def)
  have xs: "x / 2 powi (e - 52) = of_int (m * 2 ^ t)"
  proof -
    have "(2::rat) powi (int t) = 2 powi (52 - e) * 2 powi (- int k)"
      unfolding t using power_int_add[of "2::rat" "52 - e" "- int k"] by simp
    then have "(2::rat) ^ t = 2 powi (52 - e) / 2 ^ k"
      by (simp add: power_int_minus field_simps)
    moreover have "(2::rat) powi (52 - e) = 1 / 2 powi (e - 52)"
      using power_int_minus[of "2::rat" "e - 52"] by (simp add: field_simps)
    ultimately show ?thesis by (simp add: x_def field_simps)
  qed
  have "fl x = of_int (m * 2 ^ t) * 2 powi (e - 52)"
    using x0 by (simp add: fl_def e_def[symmetric] Let_def xs del: of_int_mult of_int_power)
  also have "\<dots> = x" using xs by (simp add: field_simps)
  finally show ?thesis by (simp add: x_def)
qed

lemma fl_of_int: "\<bar>m\<bar> < 2 ^ 53 \<Longrightarrow> fl (of_int m) = of_int m"
  using fl_exact[of m 0] by simp

lemma floor_fl_div:
  assumes a: "\<bar>a\<bar> < 2 ^ 53" and b: "0 < b"
  shows "\<lfloor>fl (of_int a / of_int b)\<rfloor> = a div b"
proof (cases "a mod b = 0")
  case True
  then have e: "a = b * (a div b)" by (metis mult_div_mod_eq add.right_neutral)
  have "(of_int a :: rat) / of_int b = of_int (a div b)"
    using b by (subst e) simp
  moreover have "\<bar>a div b\<bar> < 2 ^ 53"
  proof -
    have "\<bar>a div b\<bar> \<le> \<bar>a\<bar>"
    proof (cases "0 \<le> a")
      case True
      then have "0 \<le> a div b" "a div b \<le> a"
        using b zdiv_mono2[of a 1 b] by (simp_all add: pos_imp_zdiv_nonneg_iff)
      then show ?thesis using True by simp
    next
      case False
      then have "a div b < 0" "a \<le> a div b"
        using b zdiv_mono2_neg[of a 1 b] pos_imp_zdiv_neg_iff[of b a] by simp_all
      then show ?thesis using False by simp
    qed
    then show ?thesis using a by linarith
  qed
  ultimately show ?thesis by (simp add: fl_of_int)
next
  case False
  define x :: rat where "x = of_int a / of_int b"
  define n where "n = a div b"
  define r where "r = a mod b"
  have "0 \<le> a mod b" "a mod b < b" using b by simp_all
  then have r: "1 \<le> r" "r \<le> b - 1" using False unfolding r_def by linarith+
  have ab: "a = b * n + r" by (simp add: n_def r_def)
  have bq: "0 < (of_int b :: rat)" using b by simp
  have x: "x = of_int n + of_int r / of_int b"
    using bq by (simp add: x_def ab field_simps)
  have lo: "of_int n + 1 / of_int b \<le> x"
    using r(1) bq by (simp add: x divide_right_mono)
  have hi: "x \<le> of_int n + 1 - 1 / of_int b"
  proof -
    have "(of_int r :: rat) \<le> of_int b - 1" using r(2) by (metis of_int_le_iff of_int_diff of_int_1)
    then have "(of_int r :: rat) / of_int b \<le> (of_int b - 1) / of_int b"
      using bq by (simp add: divide_right_mono)
    also have "\<dots> = 1 - 1 / of_int b" using bq by (simp add: diff_divide_distrib)
    finally show ?thesis by (simp add: x)
  qed
  have err: "\<bar>fl x - x\<bar> < 1 / of_int b"
  proof -
    have "\<bar>x\<bar> = of_int \<bar>a\<bar> / of_int b" using bq by (simp add: x_def)
    moreover have "(of_int \<bar>a\<bar> :: rat) < 2 ^ 53"
      using a by (metis of_int_less_iff of_int_numeral of_int_power)
    ultimately have "\<bar>x\<bar> / 2 ^ 53 < 1 / of_int b"
      using bq by (simp add: field_simps)
    then show ?thesis using fl_error[of x] by linarith
  qed
  have "of_int n \<le> fl x" "fl x < of_int n + 1"
    using lo hi err bq by (simp_all add: abs_less_iff)
  then show ?thesis unfolding x_def[symmetric] n_def[symmetric] by (simp add: floor_unique)
qed

lemma floor_near_frac:
  assumes B: "0 < B" and nd: "A mod B \<noteq> 0"
    and err: "\<bar>q - of_int A / of_int B\<bar> < 1 / (of_int B :: rat)"
  shows "\<lfloor>q\<rfloor> = A div B"
proof -
  define x :: rat where "x = of_int A / of_int B"
  define n where "n = A div B"
  define r where "r = A mod B"
  have "0 \<le> A mod B" "A mod B < B" using B by simp_all
  then have r: "1 \<le> r" "r \<le> B - 1" using nd unfolding r_def by linarith+
  have ab: "A = B * n + r" by (simp add: n_def r_def)
  have bq: "0 < (of_int B :: rat)" using B by simp
  have x: "x = of_int n + of_int r / of_int B"
    using bq by (simp add: x_def ab field_simps)
  have lo: "of_int n + 1 / of_int B \<le> x"
    using r(1) bq by (simp add: x divide_right_mono)
  have hi: "x \<le> of_int n + 1 - 1 / of_int B"
  proof -
    have "(of_int r :: rat) \<le> of_int B - 1" using r(2) by (metis of_int_le_iff of_int_diff of_int_1)
    then have "(of_int r :: rat) / of_int B \<le> (of_int B - 1) / of_int B"
      using bq by (simp add: divide_right_mono)
    also have "\<dots> = 1 - 1 / of_int B" using bq by (simp add: diff_divide_distrib)
    finally show ?thesis by (simp add: x)
  qed
  have "of_int n \<le> q" "q < of_int n + 1"
    using lo hi err bq unfolding x_def[symmetric] by (simp_all add: abs_less_iff)
  then show ?thesis unfolding n_def[symmetric] by (simp add: floor_unique)
qed

lemma fl_error_num: "\<bar>fl x - x\<bar> \<le> \<bar>x\<bar> / 9007199254740992"
  using fl_error[of x] by simp

lemma c_122: "fl (1221 / 10) = 4296011832046387 / 35184372088832" by code_simp
lemma c_365: "fl (1461 / 4) = 1461 / 4" by code_simp

lemma cc_double:
  assumes bb: "\<bar>bb\<bar> \<le> 2147483648"
  shows "\<lfloor>fdiv (fsub (of_int bb) (fl 122.1)) (fl 365.25)\<rfloor> = (20 * bb - 2442) div 7305"
proof (rule floor_near_frac)
  show "(0::int) < 7305" by simp
  show "(20 * bb - 2442) mod 7305 \<noteq> 0"
  proof
    assume "(20 * bb - 2442) mod 7305 = 0"
    then have "7305 dvd 20 * bb - 2442" by (simp add: dvd_eq_mod_eq_0)
    then have "5 dvd 20 * bb - 2442" by (rule dvd_trans[rotated]) simp
    moreover have "20 * bb - 2442 = 5 * (4 * bb - 489) + 3" by simp
    ultimately have "(5::int) dvd 3" by (metis dvd_add_right_iff dvd_triv_left)
    then show False by simp
  qed
  define b :: rat where "b = of_int bb"
  define v1 where "v1 = b - 4296011832046387 / 35184372088832"
  define t where "t = fl v1"
  define v2 where "v2 = t / (1461 / 4)"
  define q where "q = fl v2"
  have bq: "\<bar>b\<bar> \<le> 2147483648"
    using bb unfolding b_def by (metis of_int_abs of_int_le_iff of_int_numeral)
  have e1: "\<bar>t - v1\<bar> \<le> \<bar>v1\<bar> / 9007199254740992" unfolding t_def by (rule fl_error_num)
  have e2: "\<bar>q - v2\<bar> \<le> \<bar>v2\<bar> / 9007199254740992" unfolding q_def by (rule fl_error_num)
  have v2: "v2 = t * (4 / 1461)" by (simp add: v2_def)
  have X: "(of_int (20 * bb - 2442) :: rat) / of_int 7305 = (b - 1221 / 10) * (4 / 1461)"
    by (simp add: b_def field_simps)
  have q: "fdiv (fsub (of_int bb) (fl 122.1)) (fl 365.25) = q"
    by (simp add: fdiv_def fsub_def c_122 c_365 q_def v2_def t_def v1_def b_def)
  have "\<bar>q - (b - 1221 / 10) * (4 / 1461)\<bar> < 1 / 7305"
  proof -
    have a1: "\<bar>v1\<bar> \<le> 2147483771" using bq unfolding v1_def by linarith
    have a2: "\<bar>t - v1\<bar> \<le> 1 / 4000000" using e1 a1 by linarith
    have a3: "\<bar>v2\<bar> \<le> 5879491" using a1 a2 unfolding v2 by linarith
    have a4: "\<bar>q - v2\<bar> \<le> 1 / 1000000000" using e2 a3 by linarith
    have a5: "(b - 1221 / 10) * (4 / 1461) = b * (4 / 1461) - 814 / 2435"
      by (simp add: algebra_simps)
    show ?thesis using a2 a4 unfolding v2 v1_def a5 by linarith
  qed
  then show "\<bar>fdiv (fsub (of_int bb) (fl 122.1)) (fl 365.25) - of_int (20 * bb - 2442) / of_int 7305\<bar>
        < 1 / of_int 7305"
    unfolding q X by simp
qed

lemma c_306: "fl (306001 / 10000) = 8613162434843745 / 281474976710656" by code_simp
lemma c_285: "fl (285001 / 10000) = 8022064983751367 / 281474976710656" by code_simp
lemma c_295: "fl (59 / 2) = 59 / 2" by code_simp
lemma c_iyear: "fdiv 10631 30 = 3117042163969775 / 8796093022208"
  unfolding fdiv_def by code_simp
lemma c_shift: "fdiv (fl 8.01) 60 = 2404922201015845 / 18014398509481984"
  unfolding fdiv_def by code_simp
lemma c_1867216: "fl (7468865 / 4) = 7468865 / 4" by code_simp
lemma c_36524: "fl (146097 / 4) = 146097 / 4" by code_simp
lemma c_36524_lit: "fl 36524.25 = 146097 / 4" by code_simp

lemma odd_not_dvd:
  fixes A B :: int
  assumes "even B" "odd A"
  shows "A mod B \<noteq> 0"
proof
  assume "A mod B = 0"
  then have "B dvd A" by (simp add: dvd_eq_mod_eq_0)
  then have "even A" using assms(1) by (rule dvd_trans[rotated])
  then show False using assms(2) by simp
qed

text \<open>Line 141: \<open>Math.floor((bb - dd) / 30.6001)\<close>.\<close>

lemma ee_double:
  assumes n: "123 \<le> n" "n \<le> 488"
  shows "\<lfloor>fdiv (of_int n) (fl 30.6001)\<rfloor> = (10000 * n) div 306001"
proof (rule floor_near_frac)
  show "(0::int) < 306001" by simp
  show "(10000 * n) mod 306001 \<noteq> 0"
  proof
    assume "(10000 * n) mod 306001 = 0"
    then have "306001 dvd 10000 * n" by (rule mod_0_imp_dvd)
    then obtain k where k: "10000 * n = 306001 * k" by (rule dvdE)
    have "n = 306001 * (4001 * n) - 122431 * (10000 * n)" by simp
    also have "\<dots> = 306001 * (4001 * n - 122431 * k)" unfolding k by (simp add: algebra_simps)
    finally have "306001 dvd n" by (metis dvd_triv_left)
    then have "306001 \<le> n" using n by (intro zdvd_imp_le) simp_all
    then show False using n by simp
  qed
  define w :: rat where "w = of_int n"
  define v where "v = w / (8613162434843745 / 281474976710656)"
  define q where "q = fl v"
  have w: "123 \<le> w" "w \<le> 488"
    using n unfolding w_def by simp_all
  have e: "\<bar>q - v\<bar> \<le> \<bar>v\<bar> / 9007199254740992" unfolding q_def by (rule fl_error_num)
  have v: "v = w * (281474976710656 / 8613162434843745)" by (simp add: v_def)
  have X: "(of_int (10000 * n) :: rat) / of_int 306001 = w * (10000 / 306001)"
    by (simp add: w_def)
  have q: "fdiv (of_int n) (fl 30.6001) = q"
    by (simp add: fdiv_def c_306 q_def v_def w_def)
  have "\<bar>q - w * (10000 / 306001)\<bar> < 1 / 306001"
  proof -
    have a1: "\<bar>v\<bar> \<le> 16" using w unfolding v by linarith
    have a2: "\<bar>q - v\<bar> \<le> 1 / 100000000000000" using e a1 by linarith
    show ?thesis using a2 w unfolding v by linarith
  qed
  then show "\<bar>fdiv (of_int n) (fl 30.6001) - of_int (10000 * n) / of_int 306001\<bar> < 1 / of_int 306001"
    unfolding q X by simp
qed

text \<open>Lines 128 and 142: \<open>Math.floor(30.6001 * k)\<close>, for the values of \<open>k\<close> that occur.\<close>

lemma month_term_double:
  assumes k: "4 \<le> k" "k \<le> 15"
  shows "\<lfloor>fmul (fl 30.6001) (of_int k)\<rfloor> = (306001 * k) div 10000"
proof (rule floor_near_frac)
  show "(0::int) < 10000" by simp
  show "(306001 * k) mod 10000 \<noteq> 0"
  proof
    assume "(306001 * k) mod 10000 = 0"
    then have "10000 dvd 306001 * k" by (rule mod_0_imp_dvd)
    then obtain u where u: "306001 * k = 10000 * u" by (rule dvdE)
    have "k = 306001 * (4001 * k) - 10000 * (122431 * k)" by simp
    also have "\<dots> = 10000 * (4001 * u - 122431 * k)" unfolding mult.assoc[symmetric]
      using u by (simp add: algebra_simps)
    finally have "10000 dvd k" by (metis dvd_triv_left)
    then have "10000 \<le> k" using k by (intro zdvd_imp_le) simp_all
    then show False using k by simp
  qed
  define w :: rat where "w = of_int k"
  define v where "v = 8613162434843745 / 281474976710656 * w"
  define q where "q = fl v"
  have w: "4 \<le> w" "w \<le> 15" using k unfolding w_def by simp_all
  have e: "\<bar>q - v\<bar> \<le> \<bar>v\<bar> / 9007199254740992" unfolding q_def by (rule fl_error_num)
  have X: "(of_int (306001 * k) :: rat) / of_int 10000 = 306001 / 10000 * w"
    by (simp add: w_def)
  have q: "fmul (fl 30.6001) (of_int k) = q"
    by (simp add: fmul_def c_306 q_def v_def w_def)
  have "\<bar>q - 306001 / 10000 * w\<bar> < 1 / 10000"
  proof -
    have a1: "\<bar>v\<bar> \<le> 460" using w unfolding v_def by linarith
    have a2: "\<bar>q - v\<bar> \<le> 1 / 10000000000000" using e a1 by linarith
    show ?thesis using a2 w unfolding v_def by linarith
  qed
  then show "\<bar>fmul (fl 30.6001) (of_int k) - of_int (306001 * k) / of_int 10000\<bar> < 1 / of_int 10000"
    unfolding q X by simp
qed

text \<open>Line 156: \<open>Math.floor((z - shift1) / iyear)\<close>.\<close>

lemma j_double:
  assumes z: "0 \<le> z" "z \<le> 10630"
  shows "\<lfloor>fdiv (fsub (of_int z) (fdiv (fl 8.01) 60)) (fdiv 10631 30)\<rfloor>
           = (6000 * z - 801) div 2126200"
proof (rule floor_near_frac)
  show "(0::int) < 2126200" by simp
  show "(6000 * z - 801) mod 2126200 \<noteq> 0"
    by (rule odd_not_dvd) simp_all
  define w :: rat where "w = of_int z"
  define v1 where "v1 = w - 2404922201015845 / 18014398509481984"
  define t where "t = fl v1"
  define v2 where "v2 = t / (3117042163969775 / 8796093022208)"
  define q where "q = fl v2"
  have w: "0 \<le> w" "w \<le> 10630" using z unfolding w_def by simp_all
  have e1: "\<bar>t - v1\<bar> \<le> \<bar>v1\<bar> / 9007199254740992" unfolding t_def by (rule fl_error_num)
  have e2: "\<bar>q - v2\<bar> \<le> \<bar>v2\<bar> / 9007199254740992" unfolding q_def by (rule fl_error_num)
  have v2: "v2 = t * (8796093022208 / 3117042163969775)" by (simp add: v2_def)
  have X: "(of_int (6000 * z - 801) :: rat) / of_int 2126200 = w * (30 / 10631) - 801 / 2126200"
    by (simp add: w_def field_simps)
  have q: "fdiv (fsub (of_int z) (fdiv (fl 8.01) 60)) (fdiv 10631 30) = q"
    unfolding c_iyear c_shift
    by (simp add: fdiv_def fsub_def q_def v2_def t_def v1_def w_def)
  have "\<bar>q - (w * (30 / 10631) - 801 / 2126200)\<bar> < 1 / 2126200"
  proof -
    have a1: "\<bar>v1\<bar> \<le> 10631" using w unfolding v1_def by linarith
    have a2: "\<bar>t - v1\<bar> \<le> 1 / 100000000000" using e1 a1 by linarith
    have a3: "\<bar>v2\<bar> \<le> 31" using a1 a2 unfolding v2 by linarith
    have a4: "\<bar>q - v2\<bar> \<le> 1 / 100000000000000" using e2 a3 by linarith
    show ?thesis using a2 a4 w unfolding v2 v1_def by linarith
  qed
  then show "\<bar>fdiv (fsub (of_int z) (fdiv (fl 8.01) 60)) (fdiv 10631 30)
               - of_int (6000 * z - 801) / of_int 2126200\<bar> < 1 / of_int 2126200"
    unfolding q X by simp
qed

text \<open>Line 158: \<open>Math.floor(j * iyear + shift1)\<close>.\<close>

lemma year_days_double:
  assumes j: "- 1 \<le> j" "j \<le> 29"
  shows "\<lfloor>fadd (fmul (of_int j) (fdiv 10631 30)) (fdiv (fl 8.01) 60)\<rfloor>
           = (2126200 * j + 801) div 6000"
proof (rule floor_near_frac)
  show "(0::int) < 6000" by simp
  show "(2126200 * j + 801) mod 6000 \<noteq> 0"
    by (rule odd_not_dvd) simp_all
  define w :: rat where "w = of_int j"
  define v1 where "v1 = w * (3117042163969775 / 8796093022208)"
  define t where "t = fl v1"
  define v2 where "v2 = t + 2404922201015845 / 18014398509481984"
  define q where "q = fl v2"
  have w: "- 1 \<le> w" "w \<le> 29" using j unfolding w_def by simp_all
  have e1: "\<bar>t - v1\<bar> \<le> \<bar>v1\<bar> / 9007199254740992" unfolding t_def by (rule fl_error_num)
  have e2: "\<bar>q - v2\<bar> \<le> \<bar>v2\<bar> / 9007199254740992" unfolding q_def by (rule fl_error_num)
  have X: "(of_int (2126200 * j + 801) :: rat) / of_int 6000 = w * (10631 / 30) + 267 / 2000"
    by (simp add: w_def field_simps)
  have q: "fadd (fmul (of_int j) (fdiv 10631 30)) (fdiv (fl 8.01) 60) = q"
    unfolding c_iyear c_shift
    by (simp add: fadd_def fmul_def q_def v2_def t_def v1_def w_def)
  have "\<bar>q - (w * (10631 / 30) + 267 / 2000)\<bar> < 1 / 6000"
  proof -
    have a1: "\<bar>v1\<bar> \<le> 10277" using w unfolding v1_def by linarith
    have a2: "\<bar>t - v1\<bar> \<le> 1 / 100000000000" using e1 a1 by linarith
    have a3: "\<bar>v2\<bar> \<le> 10278" using a1 a2 unfolding v2_def by linarith
    have a4: "\<bar>q - v2\<bar> \<le> 1 / 100000000000" using e2 a3 by linarith
    show ?thesis using a2 a4 w unfolding v2_def v1_def by linarith
  qed
  then show "\<bar>fadd (fmul (of_int j) (fdiv 10631 30)) (fdiv (fl 8.01) 60)
               - of_int (2126200 * j + 801) / of_int 6000\<bar> < 1 / of_int 6000"
    unfolding q X by simp
qed

text \<open>Line 159: \<open>Math.floor((z + 28.5001) / 29.5)\<close>.\<close>

lemma im_double:
  assumes z: "1 \<le> z" "z \<le> 355"
  shows "\<lfloor>fdiv (fadd (of_int z) (fl 28.5001)) (fl 29.5)\<rfloor> = (10000 * z + 285001) div 295000"
proof (rule floor_near_frac)
  show "(0::int) < 295000" by simp
  show "(10000 * z + 285001) mod 295000 \<noteq> 0"
    by (rule odd_not_dvd) simp_all
  define w :: rat where "w = of_int z"
  define v1 where "v1 = w + 8022064983751367 / 281474976710656"
  define t where "t = fl v1"
  define v2 where "v2 = t / (59 / 2)"
  define q where "q = fl v2"
  have w: "1 \<le> w" "w \<le> 355" using z unfolding w_def by simp_all
  have e1: "\<bar>t - v1\<bar> \<le> \<bar>v1\<bar> / 9007199254740992" unfolding t_def by (rule fl_error_num)
  have e2: "\<bar>q - v2\<bar> \<le> \<bar>v2\<bar> / 9007199254740992" unfolding q_def by (rule fl_error_num)
  have v2: "v2 = t * (2 / 59)" by (simp add: v2_def)
  have X: "(of_int (10000 * z + 285001) :: rat) / of_int 295000 = w * (2 / 59) + 285001 / 295000"
    by (simp add: w_def field_simps)
  have q: "fdiv (fadd (of_int z) (fl 28.5001)) (fl 29.5) = q"
    by (simp add: fdiv_def fadd_def c_285 c_295 q_def v2_def t_def v1_def w_def)
  have "\<bar>q - (w * (2 / 59) + 285001 / 295000)\<bar> < 1 / 295000"
  proof -
    have a1: "\<bar>v1\<bar> \<le> 384" using w unfolding v1_def by linarith
    have a2: "\<bar>t - v1\<bar> \<le> 1 / 10000000000000" using e1 a1 by linarith
    have a3: "\<bar>v2\<bar> \<le> 14" using a1 a2 unfolding v2 by linarith
    have a4: "\<bar>q - v2\<bar> \<le> 1 / 100000000000000" using e2 a3 by linarith
    show ?thesis using a2 a4 w unfolding v2 v1_def by linarith
  qed
  then show "\<bar>fdiv (fadd (of_int z) (fl 28.5001)) (fl 29.5)
               - of_int (10000 * z + 285001) / of_int 295000\<bar> < 1 / of_int 295000"
    unfolding q X by simp
qed

text \<open>Line 164: \<open>Math.floor(29.5 * im - 29)\<close> is computed without rounding.\<close>

lemma id_double:
  assumes im: "\<bar>im\<bar> \<le> 1000"
  shows "\<lfloor>fsub (fmul (fl 29.5) (of_int im)) 29\<rfloor> = (59 * im - 58) div 2"
proof -
  have "fmul (fl 29.5) (of_int im) = fl (of_int (59 * im) / 2 ^ 1)"
    by (simp add: fmul_def c_295)
  also have "\<dots> = of_int (59 * im) / 2 ^ 1"
    using im by (intro fl_exact) simp
  finally have a: "fmul (fl 29.5) (of_int im) = of_int (59 * im) / 2 ^ 1" .
  have "fsub (of_int (59 * im) / 2 ^ 1) 29 = fl (of_int (59 * im - 58) / 2 ^ 1)"
    by (simp add: fsub_def field_simps)
  also have "\<dots> = of_int (59 * im - 58) / 2 ^ 1"
    using im by (intro fl_exact) simp
  finally have "fsub (fmul (fl 29.5) (of_int im)) 29 = of_int (59 * im - 58) / of_int 2"
    unfolding a by simp
  then show ?thesis by (simp only: floor_divide_of_int_eq)
qed

text \<open>Quotients and products of integers: one rounding of an exact fraction.\<close>

lemma int_div_double:
  assumes "\<bar>a\<bar> < 2 ^ 53" "0 < b"
  shows "\<lfloor>fdiv (of_int a) (of_int b)\<rfloor> = a div b"
  unfolding fdiv_def using assms by (rule floor_fl_div)

lemma days_double:
  assumes n: "\<bar>n\<bar> \<le> 1000000000000"
  shows "\<lfloor>fmul (fl 365.25) (of_int n)\<rfloor> = (1461 * n) div 4"
proof -
  have "fmul (fl 365.25) (of_int n) = fl (of_int (1461 * n) / of_int 4)"
    by (simp add: fmul_def c_365)
  moreover have "\<bar>1461 * n\<bar> < 2 ^ 53" using n by simp
  ultimately show ?thesis using floor_fl_div[of "1461 * n" 4] by simp
qed

text \<open>Line 135: \<open>Math.floor((jd - 1867216.25) / 36524.25)\<close>.\<close>

lemma century_double:
  assumes jd: "\<bar>jd\<bar> \<le> 1000000000000"
  shows "\<lfloor>fdiv (fsub (of_int jd) (fl 1867216.25)) (fl 36524.25)\<rfloor>
           = (4 * jd - 7468865) div 146097"
proof -
  have "fsub (of_int jd) (fl 1867216.25) = fl (of_int (4 * jd - 7468865) / 2 ^ 2)"
    by (simp add: fsub_def c_1867216 field_simps)
  also have "\<dots> = of_int (4 * jd - 7468865) / 2 ^ 2"
    using jd by (intro fl_exact) simp
  finally have a: "fsub (of_int jd) (fl 1867216.25) = of_int (4 * jd - 7468865) / 2 ^ 2" .
  have "(of_int (4 * jd - 7468865) :: rat) / 2 ^ 2 / (146097 / 4)
          = of_int (4 * jd - 7468865) / of_int 146097"
    by simp
  then have "fdiv (of_int (4 * jd - 7468865) / 2 ^ 2) (fl 36524.25)
          = fl (of_int (4 * jd - 7468865) / of_int 146097)"
    by (simp only: fdiv_def c_36524_lit)
  moreover have "\<bar>4 * jd - 7468865\<bar> < 2 ^ 53" using jd by simp
  ultimately show ?thesis unfolding a using floor_fl_div[of "4 * jd - 7468865" 146097] by simp
qed

text \<open>
  Integer-valued variables. The double nearest to an integer is an integer, and it is
  the integer itself below \<open>2^53\<close>.
\<close>

lemma dbl_small:
  assumes "- 9000000000000000 \<le> n" and "n \<le> 9000000000000000"
  shows "dbl n = n"
proof -
  have "\<bar>n\<bar> < 2 ^ 53" using assms by simp
  then show ?thesis by (simp add: dbl_def fl_of_int)
qed

lemma dbl_fl: "of_int (dbl n) = fl (of_int n)"
proof (cases "\<bar>n\<bar> < 2 ^ 53")
  case True
  then show ?thesis by (simp add: dbl_def fl_of_int)
next
  case False
  define x :: rat where "x = of_int n"
  have big: "(2::rat) ^ 53 \<le> \<bar>x\<bar>"
  proof -
    have "(2::int) ^ 53 \<le> \<bar>n\<bar>" using False by simp
    then have "(of_int ((2::int) ^ 53) :: rat) \<le> of_int \<bar>n\<bar>" by (simp only: of_int_le_iff)
    then show ?thesis by (simp add: x_def)
  qed
  then have x0: "x \<noteq> 0" by auto
  define e where "e = ilog2 x"
  have "(2::rat) powi 53 \<le> \<bar>x\<bar>" using big by simp
  also have "\<bar>x\<bar> < 2 powi (e + 1)" using ilog2_bounds(2)[OF x0] by (simp add: e_def)
  finally have "(2::rat) powi 53 < 2 powi (e + 1)" .
  then have e53: "53 < e + 1"
  proof (rule contrapos_pp)
    assume "\<not> 53 < e + 1"
    then have "(2::rat) powi (e + 1) \<le> 2 powi 53"
      by (intro power_int_increasing) simp_all
    then show "\<not> (2::rat) powi 53 < 2 powi (e + 1)" by simp
  qed
  define k where "k = nat (e - 52)"
  have k: "int k = e - 52" using e53 by (simp add: k_def)
  have s: "(2::rat) powi (e - 52) = of_int (2 ^ k)"
    unfolding k[symmetric] by simp
  have "fl x = of_int (rne (x / 2 powi (e - 52)) * 2 ^ k)"
    using x0 by (simp add: fl_def e_def[symmetric] Let_def s del: of_int_power)
  then show ?thesis
    unfolding dbl_def x_def[symmetric] by (simp only: floor_of_int)
qed

text \<open>
  With these, each of the three parts of \<open>gregorianToHijri\<close> computes in doubles what it
  computes in exact arithmetic, for day numbers of magnitude up to \<open>10^9\<close> and years of
  magnitude up to \<open>10^6\<close>.
\<close>

lemma div_bounds:
  fixes a b :: int
  assumes "0 < b"
  shows "b * (a div b) \<le> a" and "a < b * (a div b) + b"
proof -
  have "a = b * (a div b) + a mod b" by simp
  moreover have "0 \<le> a mod b" "a mod b < b" using assms by simp_all
  ultimately show "b * (a div b) \<le> a" and "a < b * (a div b) + b" by linarith+
qed

lemma gregorian_jdn_double_both:
  assumes y: "\<bar>year\<bar> \<le> 1000000" and m: "1 \<le> month" "month \<le> 12" and d: "\<bar>day\<bar> \<le> 1000"
  shows "gregorian_jdn_double year month day = gregorian_jdn year month day"
    and "\<bar>gregorian_jdn year month day\<bar> \<le> 999999998"
proof -
  define y where "y = (if month < 3 then year - 1 else year)"
  define mm where "mm = (if month < 3 then month + 12 else month)"
  define a where "a = y div 100"
  define q where "q = a div 4"
  define b0 where "b0 = 2 - a + q"
  define b1 where "b1 = (if y < 1583 then 0 else b0)"
  define b2 where "b2 = (if y = 1582
              then (let b = (if mm > 10 then -10 else b1)
                    in if mm = 10 then (if day > 4 then -10 else 0) else b)
              else b1)"
  define Y where "Y = y + 4716"
  define M where "M = mm + 1"
  define c4 where "c4 = (1461 * Y) div 4"
  define mo where "mo = (306001 * M) div 10000"
  have yb: "\<bar>y\<bar> \<le> 1000001"
    unfolding y_def using y by (cases "month < 3"; simp; linarith)
  have mb: "3 \<le> mm" "mm \<le> 14" using m by (simp_all add: mm_def)
  have ab: "\<bar>a\<bar> \<le> 20000" using div_bounds[of 100 y] yb unfolding a_def by linarith
  have qb: "\<bar>q\<bar> \<le> 20000" using div_bounds[of 4 a] ab unfolding q_def by linarith
  have b0b: "\<bar>b0\<bar> \<le> 40002" using ab qb unfolding b0_def by linarith
  have b1b: "\<bar>b1\<bar> \<le> 40002" using b0b by (simp add: b1_def)
  have b2b: "\<bar>b2\<bar> \<le> 40002" using b1b by (simp add: b2_def Let_def)
  have Yb: "\<bar>Y\<bar> \<le> 1004717" using yb by (simp add: Y_def)
  have Mb: "4 \<le> M" "M \<le> 15" using mb by (simp_all add: M_def)
  have c4b: "\<bar>c4\<bar> \<le> 400000000"
    using div_bounds[of 4 "1461 * Y"] Yb unfolding c4_def by linarith
  have mob: "\<bar>mo\<bar> \<le> 500"
    using div_bounds[of 10000 "306001 * M"] Mb unfolding mo_def by linarith
  have g1: "dbl (year - 1) = year - 1" by (rule dbl_small) (use y in linarith)+
  have g2: "dbl (month + 12) = month + 12" by (rule dbl_small) (use m in linarith)+
  have pair: "(if month < 3 then (year - 1, month + 12) else (year, month)) = (y, mm)"
    by (simp add: y_def mm_def)
  have f1: "\<lfloor>fdiv (of_int y) 100\<rfloor> = a"
    using int_div_double[of y 100] yb by (simp add: a_def)
  have g3: "dbl (2 - a) = 2 - a" by (rule dbl_small) (use ab in linarith)+
  have f2: "\<lfloor>fdiv (of_int a) 4\<rfloor> = q"
    using int_div_double[of a 4] ab by (simp add: q_def)
  have g4: "dbl (2 - a + q) = b0" unfolding b0_def by (rule dbl_small) (use ab qb in linarith)+
  have g5: "dbl (y + 4716) = Y" unfolding Y_def by (rule dbl_small) (use yb in linarith)+
  have g6: "dbl (mm + 1) = M" unfolding M_def by (rule dbl_small) (use mb in linarith)+
  have f3: "\<lfloor>fmul (fl 365.25) (of_int Y)\<rfloor> = c4"
    unfolding c4_def using Yb by (intro days_double) simp
  have f4: "\<lfloor>fmul (fl 30.6001) (of_int M)\<rfloor> = mo"
    unfolding mo_def using Mb by (rule month_term_double)
  have h1: "dbl (c4 + mo) = c4 + mo" by (rule dbl_small) (use c4b mob in linarith)+
  have h2: "dbl (c4 + mo + day) = c4 + mo + day"
    by (rule dbl_small) (use c4b mob d in linarith)+
  have h3: "dbl (c4 + mo + day + b2) = c4 + mo + day + b2"
    by (rule dbl_small) (use c4b mob d b2b in linarith)+
  have h4: "dbl (c4 + mo + day + b2 - 1524) = c4 + mo + day + b2 - 1524"
    by (rule dbl_small) (use c4b mob d b2b in linarith)+
  have "gregorian_jdn_double year month day = dbl (dbl (dbl (dbl (c4 + mo) + day) + b2) - 1524)"
    unfolding gregorian_jdn_double_def g1 g2 pair prod.case Let_def f1 g3 f2 g4 g5 g6 f3 f4
    by (simp add: b2_def b1_def Let_def)
  then have dv: "gregorian_jdn_double year month day = c4 + mo + day + b2 - 1524"
    by (simp only: h1 h2 h3 h4)
  have ev: "gregorian_jdn year month day = c4 + mo + day + b2 - 1524"
    unfolding gregorian_jdn_int pair prod.case Let_def
    by (simp add: c4_def mo_def b2_def b1_def b0_def q_def a_def Y_def M_def Let_def)
  show "gregorian_jdn_double year month day = gregorian_jdn year month day"
    by (simp only: dv ev)
  show "\<bar>gregorian_jdn year month day\<bar> \<le> 999999998"
    unfolding ev using c4b mob d b2b by linarith
qed

lemmas gregorian_jdn_double_exact = gregorian_jdn_double_both(1)
lemmas gregorian_jdn_bound = gregorian_jdn_double_both(2)

lemma jdn_hijri_double_exact:
  assumes jd: "\<bar>jd\<bar> \<le> 1000000000"
  shows "jdn_hijri_double jd = jdn_hijri jd"
proof -
  define z where "z = jd - 1948084"
  define cyc where "cyc = z div 10631"
  define z1 where "z1 = z - 10631 * cyc"
  define j where "j = (6000 * z1 - 801) div 2126200"
  define yd where "yd = (2126200 * j + 801) div 6000"
  define z2 where "z2 = z1 - yd"
  define im0 where "im0 = (10000 * z2 + 285001) div 295000"
  define im where "im = (if im0 = 13 then 12 else im0)"
  define md where "md = (59 * im - 58) div 2"
  have zb: "\<bar>z\<bar> \<le> 2000000000" using jd by (simp add: z_def)
  have cb: "\<bar>cyc\<bar> \<le> 2000000000"
    using div_bounds[of 10631 z] zb unfolding cyc_def by linarith
  have z1b: "0 \<le> z1" "z1 \<le> 10630"
    using div_bounds[of 10631 z] unfolding z1_def cyc_def by linarith+
  have jb: "- 1 \<le> j" "j \<le> 29"
    using div_bounds[of 2126200 "6000 * z1 - 801"] z1b unfolding j_def by linarith+
  have z2b: "1 \<le> z2" "z2 \<le> 355"
    using hijri_day_of_year[of z1] by (simp_all add: z2_def yd_def j_def)
  note h = hijri_month_day[OF z2b, folded im0_def, folded im_def]
  have imb: "\<bar>im\<bar> \<le> 1000" using h(3,4) by simp
  have im1: "(if im = 0 then 1 else im) = im" using h(3) by simp
  have mdb: "\<bar>md\<bar> \<le> 1000"
    using div_bounds[of 2 "59 * im - 58"] h(3,4) unfolding md_def by linarith
  have g1: "dbl (jd - 1948084) = z" unfolding z_def by (rule dbl_small) (use jd in linarith)+
  have f1: "\<lfloor>fdiv (of_int z) 10631\<rfloor> = cyc"
    using int_div_double[of z 10631] zb by (simp add: cyc_def)
  have g2: "dbl (10631 * cyc) = 10631 * cyc" by (rule dbl_small) (use cb in linarith)+
  have g3: "dbl (z - 10631 * cyc) = z1"
    unfolding z1_def[symmetric] by (rule dbl_small) (use z1b in linarith)+
  have f2: "\<lfloor>fdiv (fsub (of_int z1) (fdiv (fl 8.01) 60)) (fdiv 10631 30)\<rfloor> = j"
    unfolding j_def using z1b by (rule j_double)
  have g4: "dbl (30 * cyc) = 30 * cyc" by (rule dbl_small) (use cb in linarith)+
  have g5: "dbl (30 * cyc + j) = 30 * cyc + j" by (rule dbl_small) (use cb jb in linarith)+
  have f3: "\<lfloor>fadd (fmul (of_int j) (fdiv 10631 30)) (fdiv (fl 8.01) 60)\<rfloor> = yd"
    unfolding yd_def using jb by (rule year_days_double)
  have g6: "dbl (z1 - yd) = z2"
    unfolding z2_def[symmetric] by (rule dbl_small) (use z2b in linarith)+
  have f4: "\<lfloor>fdiv (fadd (of_int z2) (fl 28.5001)) (fl 29.5)\<rfloor> = im0"
    unfolding im0_def using z2b by (rule im_double)
  have f5: "\<lfloor>fsub (fmul (fl 29.5) (of_int im)) 29\<rfloor> = md"
    unfolding md_def using imb by (rule id_double)
  have g7: "dbl (z2 - md) = z2 - md" by (rule dbl_small) (use z2b mdb in linarith)+
  have d: "jdn_hijri_double jd = (30 * cyc + j, im, z2 - md)"
    unfolding jdn_hijri_double_def Let_def g1 f1 g2 g3 f2 g4 g5 f3 g6 f4 im_def[symmetric]
      im1 f5 g7
    by (rule refl)
  have e: "jdn_hijri jd = (30 * cyc + j, im, z2 - md)"
    unfolding jdn_hijri_int Let_def z_def[symmetric] cyc_def[symmetric] z1_def[symmetric]
      j_def[symmetric] yd_def[symmetric] z2_def[symmetric] im0_def[symmetric]
      im_def[symmetric] im1 md_def[symmetric]
    by (rule refl)
  show ?thesis unfolding d e by (rule refl)
qed

lemma jdn_gregorian_double_exact:
  assumes jd: "\<bar>jd\<bar> \<le> 1000000000"
  shows "jdn_gregorian_double jd = jdn_gregorian jd"
proof -
  define a where "a = (4 * jd - 7468865) div 146097"
  define q where "q = a div 4"
  define b where "b = (if jd > 2299160 then 1 + a - q else 0)"
  define bb where "bb = jd + b + 1524"
  define cc where "cc = (20 * bb - 2442) div 7305"
  define dd where "dd = (1461 * cc) div 4"
  define n where "n = bb - dd"
  define ee where "ee = (10000 * n) div 306001"
  define me where "me = (306001 * ee) div 10000"
  have ab: "\<bar>a\<bar> \<le> 30000"
    using div_bounds[of 146097 "4 * jd - 7468865"] jd unfolding a_def by linarith
  have qb: "\<bar>q\<bar> \<le> 30000"
    using div_bounds[of 4 a] ab unfolding q_def by linarith
  have bbd: "\<bar>b\<bar> \<le> 70000"
    unfolding b_def using ab qb by (cases "2299160 < jd"; simp; linarith)
  have bbb: "\<bar>bb\<bar> \<le> 2147483648" using bbd jd by (simp add: bb_def)
  have ccb: "\<bar>cc\<bar> \<le> 1000000000000"
    using div_bounds[of 7305 "20 * bb - 2442"] bbb unfolding cc_def by linarith
  have c1: "7305 * cc \<le> 20 * bb - 2442" and c2: "20 * bb - 2442 < 7305 * cc + 7305"
    using div_bounds[of 7305 "20 * bb - 2442"] by (simp_all add: cc_def)
  have d1: "4 * dd \<le> 1461 * cc" and d2: "1461 * cc < 4 * dd + 4"
    using div_bounds[of 4 "1461 * cc"] by (simp_all add: dd_def)
  have nb: "123 \<le> n" "n \<le> 488" unfolding n_def using c1 c2 d1 d2 by linarith+
  have eb: "4 \<le> ee" "ee \<le> 15"
    using div_bounds[of 306001 "10000 * n"] nb unfolding ee_def by linarith+
  have meb: "0 \<le> me" "me \<le> 500"
    using div_bounds[of 10000 "306001 * ee"] eb unfolding me_def by linarith+
  have f1: "\<lfloor>fdiv (fsub (of_int jd) (fl 1867216.25)) (fl 36524.25)\<rfloor> = a"
    unfolding a_def using jd by (intro century_double) simp
  have g1: "dbl (1 + a) = 1 + a" by (rule dbl_small) (use ab in linarith)+
  have f2: "\<lfloor>fdiv (of_int a) 4\<rfloor> = q"
    using int_div_double[of a 4] ab by (simp add: q_def)
  have g2: "dbl (1 + a - q) = 1 + a - q" by (rule dbl_small) (use ab qb in linarith)+
  have g3: "dbl (jd + b) = jd + b" by (rule dbl_small) (use jd bbd in linarith)+
  have g4: "dbl (jd + b + 1524) = bb"
    unfolding bb_def by (rule dbl_small) (use jd bbd in linarith)+
  have f3: "\<lfloor>fdiv (fsub (of_int bb) (fl 122.1)) (fl 365.25)\<rfloor> = cc"
    unfolding cc_def using bbb by (rule cc_double)
  have f4: "\<lfloor>fmul (fl 365.25) (of_int cc)\<rfloor> = dd"
    unfolding dd_def using ccb by (rule days_double)
  have g5: "dbl (bb - dd) = n"
    unfolding n_def[symmetric] by (rule dbl_small) (use nb in linarith)+
  have f5: "\<lfloor>fdiv (of_int n) (fl 30.6001)\<rfloor> = ee"
    unfolding ee_def using nb by (rule ee_double)
  have f6: "\<lfloor>fmul (fl 30.6001) (of_int ee)\<rfloor> = me"
    unfolding me_def using eb by (rule month_term_double)
  have g6: "dbl (n - me) = n - me" by (rule dbl_small) (use nb meb in linarith)+
  have g7: "dbl (cc + 1) = cc + 1" by (rule dbl_small) (use ccb in linarith)+
  have g8: "dbl (ee - 13) = ee - 13" by (rule dbl_small) (use eb in linarith)+
  have g9: "dbl (ee - 1) = ee - 1" by (rule dbl_small) (use eb in linarith)+
  have g10: "dbl (cc - 4715) = cc - 4715" by (rule dbl_small) (use ccb in linarith)+
  have g11: "dbl (cc - 4716) = cc - 4716" by (rule dbl_small) (use ccb in linarith)+
  have bif: "(if jd > 2299160 then 1 + a - q else 0) = b" by (simp add: b_def)
  have d0: "jdn_gregorian_double jd =
      (case (if ee > 13 then (cc + 1, ee - 13) else (cc, ee - 1)) of
         (cc, month) \<Rightarrow> (dbl (cc - 4716), month, n - me))"
    unfolding jdn_gregorian_double_def Let_def f1 g1 f2 g2 bif g3 g4 f3 f4 g5 f5 f6 g6 g7 g8 g9
    by (rule refl)
  have d: "jdn_gregorian_double jd =
      (if ee > 13 then (cc + 1 - 4716, ee - 13, n - me) else (cc - 4716, ee - 1, n - me))"
    unfolding d0 by (simp add: g10 g11)
  have e0: "jdn_gregorian jd =
      (case (if ee > 13 then (cc + 1, ee - 13) else (cc, ee - 1)) of
         (cc, month) \<Rightarrow> (cc - 4716, month, n - me))"
    unfolding jdn_gregorian_int Let_def a_def[symmetric] q_def[symmetric] bif
      bb_def[symmetric] cc_def[symmetric] dd_def[symmetric] n_def[symmetric] ee_def[symmetric]
      me_def[symmetric]
    by (rule refl)
  have e: "jdn_gregorian jd =
      (if ee > 13 then (cc + 1 - 4716, ee - 13, n - me) else (cc - 4716, ee - 1, n - me))"
    unfolding e0 by simp
  show ?thesis unfolding d e by (rule refl)
qed

lemma gregorianToHijri_double_exact:
  assumes "\<bar>gy\<bar> \<le> 1000000" and "1 \<le> gm" "gm \<le> 12" and "\<bar>gd\<bar> \<le> 1000"
  shows "gregorianToHijri_double gy gm gd = gregorianToHijri gy gm gd"
proof -
  have b0: "\<bar>gregorian_jdn gy gm gd\<bar> \<le> 999999998"
    using assms by (rule gregorian_jdn_bound)
  then have b: "\<bar>gregorian_jdn gy gm gd + CALIBRATION_OFFSET\<bar> \<le> 1000000000"
    by (simp add: CALIBRATION_OFFSET_def)
  have g: "dbl (gregorian_jdn gy gm gd + CALIBRATION_OFFSET)
             = gregorian_jdn gy gm gd + CALIBRATION_OFFSET"
    by (rule dbl_small) (use b in linarith)+
  show ?thesis
    unfolding gregorianToHijri_double_def gregorianToHijri_def
      gregorian_jdn_double_exact[OF assms] Let_def g
      jdn_gregorian_double_exact[OF b] jdn_hijri_double_exact[OF b]
    by (rule refl)
qed

section \<open>The Hijri conversion\<close>

lemma valid_gregorian_day:
  assumes "valid_gregorian gy gm gd"
  shows "1 \<le> gm" and "gm \<le> 12" and "\<bar>gd\<bar> \<le> 1000"
proof -
  have m: "1 \<le> gm" "gm \<le> 12" and d: "1 \<le> gd" "gd \<le> gregorian_days_in_month gy gm"
    using assms by (simp_all add: valid_gregorian_def)
  have "gregorian_days_in_month gy gm \<le> 31"
    using int_1_12[OF m]
    by (elim disjE) (simp_all add: gregorian_days_in_month_def)
  then show "1 \<le> gm" and "gm \<le> 12" and "\<bar>gd\<bar> \<le> 1000" using m d by simp_all
qed




text \<open>
  C8. For every valid Gregorian date from the year 1583 on, the inversion of the Julian
  day number (lines 133 to 148), applied to the day number of the date (lines 110 to
  128, without the calibration offset), gives the date back. This holds of the exact
  model for every such year, and of the computation in doubles up to the year one
  million.
\<close>

theorem jdn_round_trip:
  assumes "1583 \<le> gy" and "valid_gregorian gy gm gd"
  shows "jdn_gregorian (gregorian_jdn gy gm gd) = (gy, gm, gd)
         \<and> (gy \<le> 1000000 \<longrightarrow>
              jdn_gregorian_double (gregorian_jdn_double gy gm gd) = (gy, gm, gd))"
proof
  show rt: "jdn_gregorian (gregorian_jdn gy gm gd) = (gy, gm, gd)"
    using assms by (rule jdn_round_trip_general)
  show "gy \<le> 1000000 \<longrightarrow>
          jdn_gregorian_double (gregorian_jdn_double gy gm gd) = (gy, gm, gd)"
  proof
    assume "gy \<le> 1000000"
    then have y: "\<bar>gy\<bar> \<le> 1000000" using assms(1) by simp
    note v = valid_gregorian_day[OF assms(2)]
    have "\<bar>gregorian_jdn gy gm gd\<bar> \<le> 999999998"
      using y v by (rule gregorian_jdn_bound)
    then have b: "\<bar>gregorian_jdn gy gm gd\<bar> \<le> 1000000000" by simp
    show "jdn_gregorian_double (gregorian_jdn_double gy gm gd) = (gy, gm, gd)"
      unfolding gregorian_jdn_double_exact[OF y v] jdn_gregorian_double_exact[OF b]
      by (rule rt)
  qed
qed

theorem jdn_round_trip_witness:
  "(1583::int) \<le> 2024 \<and> valid_gregorian 2024 2 29
   \<and> jdn_gregorian (gregorian_jdn 2024 2 29) = (2024, 2, 29)
   \<and> (2024::int) \<le> 1000000
   \<and> jdn_gregorian_double (gregorian_jdn_double 2024 2 29) = (2024, 2, 29)"
proof -
  have v: "valid_gregorian 2024 2 29"
    by (simp add: valid_gregorian_def gregorian_days_in_month_def gregorian_leap_def)
  show ?thesis using jdn_round_trip[of 2024 2 29] v by simp
qed

text \<open>
  C10. The calibration reference: 1 Bahman 1404 is Gregorian 21 January 2026, and
  \<open>getLunarDate(1404, 11, 1)\<close> returns month 8 and day 1 of the Hijri year 1447
  (1 Shaban 1447), in exact arithmetic and in doubles.
\<close>

theorem calibration_reference:
  "jalaliToGregorian 1404 11 1 = (2026, 1, 21)
   \<and> CALIBRATION_OFFSET = -2
   \<and> getLunarDate 1404 11 1 = (1447, 8, 1)
   \<and> getLunarDate_double 1404 11 1 = (1447, 8, 1)"
proof -
  have g: "jalaliToGregorian 1404 11 1 = (2026, 1, 21)" by code_simp
  have c: "CALIBRATION_OFFSET = -2" by code_simp
  have h: "gregorianToHijri 2026 1 21 = (1447, 8, 1)" by code_simp
  have d: "gregorianToHijri_double 2026 1 21 = gregorianToHijri 2026 1 21"
    by (rule gregorianToHijri_double_exact) simp_all
  show ?thesis
    by (simp add: g c getLunarDate_def getLunarDate_double_def d h)
qed

section \<open>Month lengths: the rule of \<open>getJalaliDaysInMonth\<close>\<close>

text \<open>
  C6, as stated, holds for every Jalali year. The product \<open>(jy + 38) * 31\<close> is a
  double: above \<open>2^53\<close> it is rounded, and the remainder is taken of the rounded value. For
  the year 325321418931707 the exact product 10084963986884095 has the remainder 127,
  which is above 30, so the rule gives 29 days to month 12; the code rounds the product
  to 10084963986884096, with the remainder 0, and returns 30.
\<close>

theorem days_in_month_counterexample:
  "\<not> rem_js ((325321418931707 + 38) * 31) 128 \<le> 30
   \<and> dbl ((325321418931707 + 38) * 31) = 10084963986884096
   \<and> getJalaliDaysInMonth_double 325321418931707 12 = 30"
  by code_simp

text \<open>
  C6, amended. For a Jalali year of magnitude at most 290000000000000 and a month from
  1 to 12, \<open>getJalaliDaysInMonth\<close> gives 31 days up to month 6, 30 days from month 7 to
  month 11, and for month 12 gives 30 days when \<open>((jy + 38) * 31) % 128 <= 30\<close> and 29
  days otherwise. In that range the computation in doubles is exact.
\<close>

theorem days_in_month:
  assumes "1 \<le> jm" and "jm \<le> 12" and "\<bar>jy\<bar> \<le> 290000000000000"
  shows "getJalaliDaysInMonth_double jy jm =
           (if jm \<le> 6 then 31
            else if 7 \<le> jm \<and> jm \<le> 11 then 30
            else if rem_js ((jy + 38) * 31) 128 \<le> 30 then 30 else 29)
         \<and> getJalaliDaysInMonth_double jy jm = getJalaliDaysInMonth jy jm"
proof -
  have g1: "dbl (jy + 38) = jy + 38" by (rule dbl_small) (use assms(3) in linarith)+
  define s where "s = jy + 38"
  have sb: "\<bar>s\<bar> \<le> 290000000000038" using assms(3) by (simp add: s_def)
  have "dbl (s * 31) = s * 31"
    by (rule dbl_small) (use sb in linarith)+
  then have g2: "dbl ((jy + 38) * 31) = (jy + 38) * 31" by (simp only: s_def)
  show ?thesis
    unfolding getJalaliDaysInMonth_double_def getJalaliDaysInMonth_def g1 g2 Let_def
    using assms(1,2) by auto
qed

theorem days_in_month_witness:
  "(1::int) \<le> 12 \<and> (12::int) \<le> 12 \<and> \<bar>1403 :: int\<bar> \<le> 290000000000000
   \<and> \<bar>1404 :: int\<bar> \<le> 290000000000000
   \<and> getJalaliDaysInMonth_double 1403 12 = 29 \<and> getJalaliDaysInMonth_double 1404 12 = 30"
  using days_in_month[of 12 1403] days_in_month[of 12 1404]
  by (simp add: rem_js_def trunc_quot_def)

section \<open>Holidays\<close>






















end
